theory Spec2Isabelle
  imports Complex_Main
begin

section \<open>The Kuramoto-Sivashinsky solver of \<^verbatim>\<open>kuramoto.py\<close>\<close>

text \<open>
  The class \<^verbatim>\<open>KS\<close> is embedded as a record of its attributes and one function per
  method. A method takes the object and returns the object it leaves behind, together
  with what it returns or raises.

  Array data are lists of complex numbers (numpy promotes a real operand to complex
  before a mixed operation, so one element type is what the arrays hold). The
  arithmetic of the array primitives is a parameter of the model: every primitive
  (sum, difference, product, quotient, exponential, power) delivers a value and a
  flag, the flag saying that the operation signalled overflow or invalid. Under
  \<^verbatim>\<open>np.seterr(over='raise', invalid='raise')\<close> a numpy operation whose loop raised a
  flag raises \<^verbatim>\<open>FloatingPointError\<close> once the loop is over. \<open>pdiv\<close> is the division
  of two Python floats by a divisor other than zero: it rounds, raises nothing, and
  has no finite value (\<open>None\<close>) when the quotient overflows to infinity. The
  arguments of the methods are finite numbers. The transform pair of \<^verbatim>\<open>scipy.fftpack\<close> is not part of the
  repository and is a parameter as well, and so is the conversion to single
  precision that a store into a \<^verbatim>\<open>complex64\<close> array performs. Both are taken to
  raise nothing: the transforms do not look at the error state of numpy, and a
  conversion that signals overflow, as recent versions of numpy make it do, is not
  modelled.
\<close>

subsection \<open>Errors and arithmetic\<close>

datatype error = FloatingPointError | ZeroDivisionError | ValueError | IndexError | OverflowError

record fpu =
  fadd :: "complex \<Rightarrow> complex \<Rightarrow> complex \<times> bool"
  fsub :: "complex \<Rightarrow> complex \<Rightarrow> complex \<times> bool"
  fmul :: "complex \<Rightarrow> complex \<Rightarrow> complex \<times> bool"
  fdiv :: "complex \<Rightarrow> complex \<Rightarrow> complex \<times> bool"
  fexp :: "complex \<Rightarrow> complex \<times> bool"
  fpow :: "complex \<Rightarrow> nat \<Rightarrow> complex \<times> bool"
  pdiv :: "real \<Rightarrow> real \<Rightarrow> real option"
  fft :: "complex list \<Rightarrow> complex list"
  ifft :: "complex list \<Rightarrow> complex list"
  c64 :: "complex \<Rightarrow> complex"

type_synonym arr = "error + complex list"

text \<open>
  Broadcasting of two one-dimensional shapes: equal lengths pair up, a length of one
  is stretched, anything else is a \<^verbatim>\<open>ValueError\<close>. A Python scalar behaves as an
  array of length one.
\<close>

definition broadcast :: "'a list \<Rightarrow> 'b list \<Rightarrow> error + ('a \<times> 'b) list" where
  "broadcast xs ys =
     (if length xs = length ys then Inr (zip xs ys)
      else if length xs = 1 then Inr (map (\<lambda>b. (hd xs, b)) ys)
      else if length ys = 1 then Inr (map (\<lambda>a. (a, hd ys)) xs)
      else Inl ValueError)"

text \<open>
  A binary numpy operation on two operands that are themselves results of
  expressions: the left operand is evaluated first, then the right one, then the
  shapes are checked, the loop runs, and the flags are looked at.
\<close>

definition ufunc :: "(complex \<Rightarrow> complex \<Rightarrow> complex \<times> bool) \<Rightarrow> arr \<Rightarrow> arr \<Rightarrow> arr" where
  "ufunc f a b =
     (case a of Inl e \<Rightarrow> Inl e
      | Inr xs \<Rightarrow>
        (case b of Inl e \<Rightarrow> Inl e
         | Inr ys \<Rightarrow>
           (case broadcast xs ys of Inl e \<Rightarrow> Inl e
            | Inr ps \<Rightarrow>
              (let rs = map (\<lambda>(p, q). f p q) ps
               in if list_ex snd rs then Inl FloatingPointError else Inr (map fst rs)))))"

definition add :: "fpu \<Rightarrow> arr \<Rightarrow> arr \<Rightarrow> arr" where
  "add ar = ufunc (fadd ar)"

definition sub :: "fpu \<Rightarrow> arr \<Rightarrow> arr \<Rightarrow> arr" where
  "sub ar = ufunc (fsub ar)"

definition mul :: "fpu \<Rightarrow> arr \<Rightarrow> arr \<Rightarrow> arr" where
  "mul ar = ufunc (fmul ar)"

definition scalar :: "complex \<Rightarrow> arr" where
  "scalar c = Inr [c]"

definition reals :: "real list \<Rightarrow> arr" where
  "reals xs = Inr (map complex_of_real xs)"

text \<open>\<^verbatim>\<open>a**2\<close>: numpy squares each element by multiplying it with itself.\<close>

definition square :: "fpu \<Rightarrow> arr \<Rightarrow> arr" where
  "square ar a =
     (case a of Inl e \<Rightarrow> Inl e
      | Inr xs \<Rightarrow>
        (let rs = map (\<lambda>p. fmul ar p p) xs
         in if list_ex snd rs then Inl FloatingPointError else Inr (map fst rs)))"

definition np_real :: "complex list \<Rightarrow> complex list" where
  "np_real xs = map (\<lambda>z. complex_of_real (Re z)) xs"

definition ebind :: "error + 'a \<Rightarrow> ('a \<Rightarrow> error + 'b) \<Rightarrow> error + 'b" where
  "ebind m f = (case m of Inl e \<Rightarrow> Inl e | Inr y \<Rightarrow> f y)"

subsection \<open>The object\<close>

text \<open>
  The attributes of a \<^verbatim>\<open>KS\<close> object. \<^verbatim>\<open>uu\<close> exists only once \<^verbatim>\<open>fou2real\<close> has run,
  hence the option. Python floats (\<open>L\<close>, \<open>dx\<close>, \<open>dt\<close>, \<open>t\<close>) are reals: their rounding
  is not modelled.
\<close>

record KS =
  L :: real
  N :: int
  dx :: real
  dt :: real
  nsteps :: int
  iout :: int
  nout :: int
  u0 :: "complex list"
  v0 :: "complex list"
  v :: "complex list"
  t :: real
  stepnum :: nat
  ioutnum :: nat
  vv :: "complex list list"
  tt :: "real list"
  x :: "real list"
  k :: "real list"
  l :: "complex list"
  E :: "complex list"
  E2 :: "complex list"
  M :: nat
  r :: "complex list"
  LR :: "complex list list"
  Q :: "real list"
  f1 :: "real list"
  f2 :: "real list"
  f3 :: "real list"
  g :: "complex list"
  uu :: "real list list option"

subsection \<open>\<^verbatim>\<open>KS.step\<close>\<close>

text \<open>\<^verbatim>\<open>self.g*fft(np.real(ifft(w))**2)\<close>\<close>

definition nonlin :: "fpu \<Rightarrow> KS \<Rightarrow> complex list \<Rightarrow> arr" where
  "nonlin ar s w =
     mul ar (Inr (g s)) (map_sum id (fft ar) (square ar (Inr (np_real (ifft ar w)))))"

text \<open>
  One statement after the other, each operand in Python's order of evaluation. The
  three assignments at the end are reached only when nothing was raised, so a step
  that raises leaves the object as it was. \<^verbatim>\<open>self.t += self.dt\<close> adds two Python
  floats, which raises nothing.
\<close>

definition step :: "fpu \<Rightarrow> KS \<Rightarrow> error + KS" where
  "step ar s =
     ebind (nonlin ar s (v s)) (\<lambda>Nv.
     ebind (add ar (mul ar (Inr (E2 s)) (Inr (v s))) (mul ar (reals (Q s)) (Inr Nv))) (\<lambda>a.
     ebind (nonlin ar s a) (\<lambda>Na.
     ebind (add ar (mul ar (Inr (E2 s)) (Inr (v s))) (mul ar (reals (Q s)) (Inr Na))) (\<lambda>b.
     ebind (nonlin ar s b) (\<lambda>Nb.
     ebind (add ar (mul ar (Inr (E2 s)) (Inr a))
                   (mul ar (reals (Q s)) (sub ar (mul ar (scalar 2) (Inr Nb)) (Inr Nv)))) (\<lambda>c.
     ebind (nonlin ar s c) (\<lambda>Nc.
     ebind (add ar
             (add ar
               (add ar (mul ar (Inr (E s)) (Inr (v s))) (mul ar (Inr Nv) (reals (f1 s))))
               (mul ar (mul ar (scalar 2) (add ar (Inr Na) (Inr Nb))) (reals (f2 s))))
             (mul ar (Inr Nc) (reals (f3 s)))) (\<lambda>w.
     Inr (s\<lparr>v := w, stepnum := stepnum s + 1, t := t s + dt s\<rparr>)))))))))"

text \<open>Arithmetic that rounds nothing and signals nothing, around a given transform pair.\<close>

definition exact :: "(complex list \<Rightarrow> complex list) \<Rightarrow> (complex list \<Rightarrow> complex list) \<Rightarrow> fpu" where
  "exact F Fi =
     \<lparr>fadd = (\<lambda>p q. (p + q, False)), fsub = (\<lambda>p q. (p - q, False)),
      fmul = (\<lambda>p q. (p * q, False)), fdiv = (\<lambda>p q. (p / q, False)),
      fexp = (\<lambda>p. (exp p, False)), fpow = (\<lambda>p n. (p ^ n, False)), pdiv = (\<lambda>a b. Some (a / b)),
      fft = F, ifft = Fi, c64 = id\<rparr>"

text \<open>
  The update as the specification writes it, element by element on vectors of one
  length: \<open>square_nonlinearity x = g \<odot> DFT (Re (IDFT x))\<^sup>2\<close> and the four stages.
\<close>

definition had :: "complex list \<Rightarrow> complex list \<Rightarrow> complex list" where
  "had xs ys = map2 (*) xs ys"

definition vplus :: "complex list \<Rightarrow> complex list \<Rightarrow> complex list" where
  "vplus xs ys = map2 (+) xs ys"

definition vminus :: "complex list \<Rightarrow> complex list \<Rightarrow> complex list" where
  "vminus xs ys = map2 (-) xs ys"

definition twice :: "complex list \<Rightarrow> complex list" where
  "twice xs = map (\<lambda>z. 2 * z) xs"



text \<open>The lengths a configured solver has: every array of the step has \<open>n\<close> entries.\<close>

definition shaped :: "nat \<Rightarrow> KS \<Rightarrow> bool" where
  "shaped n s \<longleftrightarrow>
     length (v s) = n \<and> length (E s) = n \<and> length (E2 s) = n \<and> length (Q s) = n \<and>
     length (f1 s) = n \<and> length (f2 s) = n \<and> length (f3 s) = n \<and> length (g s) = n"

text \<open>An array expression that, when it raises nothing, has \<open>n\<close> entries.\<close>

definition of_length :: "nat \<Rightarrow> arr \<Rightarrow> bool" where
  "of_length n a \<longleftrightarrow> (case a of Inl e \<Rightarrow> True | Inr xs \<Rightarrow> length xs = n)"

definition keeps_length :: "nat \<Rightarrow> (complex list \<Rightarrow> complex list) \<Rightarrow> bool" where
  "keeps_length n F \<longleftrightarrow> (\<forall>xs. length xs = n \<longrightarrow> length (F xs) = n)"


subsection \<open>Array helpers of the other methods\<close>

text \<open>Python's \<^verbatim>\<open>int\<close> of a float: truncation towards zero.\<close>

definition py_int :: "real \<Rightarrow> int" where
  "py_int y = (if 0 \<le> y then \<lfloor>y\<rfloor> else \<lceil>y\<rceil>)"

text \<open>
  \<^verbatim>\<open>int(a/b)\<close> on two Python integers: true division raises on a zero divisor. The
  quotient is the exact one: the rounding of the float quotient, which shows only
  beyond \<open>2\<^sup>5\<^sup>3\<close>, is not modelled.
\<close>

definition int_quot :: "int \<Rightarrow> int \<Rightarrow> error + int" where
  "int_quot a b =
     (if b = 0 then Inl ZeroDivisionError else Inr (py_int (real_of_int a / real_of_int b)))"

text \<open>\<^verbatim>\<open>np.arange(a, b)\<close> with step one, as the slices inside \<^verbatim>\<open>np.r_\<close> build it.\<close>

definition arange :: "real \<Rightarrow> real \<Rightarrow> real list" where
  "arange a b = map (\<lambda>i. a + real i) [0..<nat \<lceil>b - a\<rceil>]"

definition mean :: "complex list \<Rightarrow> complex" where
  "mean zs = sum_list zs / of_nat (length zs)"

text \<open>
  \<^verbatim>\<open>rows[i,:] = w\<close> on a two-dimensional \<^verbatim>\<open>complex64\<close> array: the row index is checked,
  \<open>w\<close> is broadcast to the width of the array, and every element is converted to
  single precision.
\<close>

definition set_row :: "fpu \<Rightarrow> nat \<Rightarrow> complex list \<Rightarrow> complex list list \<Rightarrow> error + complex list list" where
  "set_row ar i w rows =
     (if length rows \<le> i then Inl IndexError
      else if length w = length (rows ! i) then Inr (rows[i := map (c64 ar) w])
      else if length w = 1 then Inr (rows[i := replicate (length (rows ! i)) (c64 ar (hd w))])
      else Inl ValueError)"

text \<open>
  \<^verbatim>\<open>ndarray.resize\<close> keeps the flat data and cuts it off or pads it with zeros. The
  reference check of \<^verbatim>\<open>resize\<close> is taken to pass: nothing else holds the arrays.
\<close>

definition resize1 :: "nat \<Rightarrow> 'a::zero list \<Rightarrow> 'a list" where
  "resize1 m xs = take m (xs @ replicate m 0)"

definition resize2 :: "nat \<Rightarrow> nat \<Rightarrow> complex list list \<Rightarrow> complex list list" where
  "resize2 m n rows =
     map (\<lambda>i. take n (drop (i * n) (resize1 (m * n) (concat rows)))) [0..<m]"

subsection \<open>\<^verbatim>\<open>KS.IC\<close>\<close>

text \<open>
  \<open>rnd\<close> is what \<^verbatim>\<open>np.random.rand(self.N)\<close> draws. The result is \<^verbatim>\<open>-1\<close> for a
  vector of the wrong size and \<^verbatim>\<open>None\<close> otherwise; a raise happens before any
  attribute is assigned.
\<close>

definition IC ::
  "fpu \<Rightarrow> real list \<Rightarrow> complex list option \<Rightarrow> complex list option \<Rightarrow> bool \<Rightarrow> KS
     \<Rightarrow> error + (int option \<times> KS)" where
  "IC ar rnd u0' v0' testing s =
     (let save = (\<lambda>a b. Inr (None,
            s\<lparr>u0 := a, v0 := b, v := b, t := 0, stepnum := 0, ioutnum := 0\<rparr>))
      in case v0' of
           None \<Rightarrow>
             (case u0' of
                None \<Rightarrow>
                  (if testing then
                     (if L s = 0 \<and> x s \<noteq> [] then Inl FloatingPointError
                      else (let a = map (\<lambda>p. complex_of_real
                                       (cos (p / L s) * (1 + sin (p / L s)))) (x s)
                            in save a (fft ar a)))
                   else
                     (if N s < 0 then Inl ValueError
                      else (let a = map (\<lambda>p. complex_of_real ((p - 0.5) * 0.01)) rnd
                            in save a (fft ar a))))
              | Some a \<Rightarrow>
                  (if int (length a) \<noteq> N s then Inr (Some (- 1), s)
                   else save a (fft ar a)))
         | Some b \<Rightarrow>
             (if int (length b) \<noteq> N s then Inr (Some (- 1), s)
              else save (ifft ar b) b))"

subsection \<open>\<^verbatim>\<open>KS.setup_timeseries\<close>, \<^verbatim>\<open>KS.setup_fourier\<close>, \<^verbatim>\<open>KS.setup_etdrk4\<close>\<close>

text \<open>
  The result pairs what was raised, if anything, with the object as the method leaves
  it: \<^verbatim>\<open>self.nout\<close> is assigned before \<^verbatim>\<open>np.zeros\<close> can refuse a negative
  dimension, and both arrays are fresh before the store into row 0 can fail.
\<close>

definition setup_timeseries :: "fpu \<Rightarrow> int option \<Rightarrow> KS \<Rightarrow> error option \<times> KS" where
  "setup_timeseries ar nout' s =
     (let s1 = (case nout' of None \<Rightarrow> s | Some m \<Rightarrow> s\<lparr>nout := m\<rparr>)
      in if nout s1 + 1 < 0 \<or> N s1 < 0 then (Some ValueError, s1)
         else
           (let s2 = s1\<lparr>vv := replicate (nat (nout s1 + 1)) (replicate (nat (N s1)) 0),
                       tt := replicate (nat (nout s1 + 1)) 0\<rparr>
            in case set_row ar 0 (v0 s2) (vv s2) of
                 Inl e \<Rightarrow> (Some e, s2)
               | Inr rows \<Rightarrow> (None, s2\<lparr>vv := rows, tt := (tt s2)[0 := 0]\<rparr>)))"

text \<open>
  An element of an array expression: the value so far and whether any operation on
  the way to it signalled. A statement raises \<^verbatim>\<open>FloatingPointError\<close> when an
  element of its expression carries a signal; it makes no difference to the outcome
  which of its operations raised.
\<close>

type_synonym flagged = "complex \<times> bool"

definition plain :: "complex \<Rightarrow> flagged" where
  "plain c = (c, False)"

definition un :: "(complex \<Rightarrow> flagged) \<Rightarrow> flagged \<Rightarrow> flagged" where
  "un f a = (fst (f (fst a)), snd a \<or> snd (f (fst a)))"

definition bin :: "(complex \<Rightarrow> complex \<Rightarrow> flagged) \<Rightarrow> flagged \<Rightarrow> flagged \<Rightarrow> flagged" where
  "bin f a b = (fst (f (fst a) (fst b)), snd a \<or> snd b \<or> snd (f (fst a) (fst b)))"

definition collect :: "flagged list \<Rightarrow> error + complex list" where
  "collect rs = (if list_ex snd rs then Inl FloatingPointError else Inr (map fst rs))"

definition collect_rows :: "flagged list list \<Rightarrow> error + complex list list" where
  "collect_rows rows =
     (if list_ex (list_ex snd) rows then Inl FloatingPointError else Inr (map (map fst) rows))"

text \<open>
  \<^verbatim>\<open>2*pi*self.L\<close> is a product of Python floats, which does not raise; where it
  overflows, the product of the infinity with the first grid index \<open>0\<close> is invalid,
  so the statement raises whenever there are grid points, as a signal of the scalar
  product makes it do here. \<^verbatim>\<open>np.r_[0:N/2, 0, -N/2+1:0]\<close> always holds the literal
  \<open>0\<close>, so dividing it by \<open>L = 0\<close> computes \<open>0/0\<close>, which is invalid and raises. \<open>x\<close>
  and \<open>k\<close> are real arrays, \<open>l\<close> is real for the normal form and complex for altered
  coefficients. With altered coefficients the five terms are computed and summed
  from left to right, each after its coefficient has been read, so a missing
  coefficient raises \<^verbatim>\<open>IndexError\<close> only if nothing before it has signalled.
\<close>

definition setup_fourier :: "fpu \<Rightarrow> real list option \<Rightarrow> KS \<Rightarrow> error + KS" where
  "setup_fourier ar coeffs s =
     (let h = real_of_int (N s) / 2;
          pw = (\<lambda>n a. un (\<lambda>z. fpow ar z n) a)
      in ebind (collect (map (\<lambda>i. bin (fdiv ar)
                                  (bin (fmul ar)
                                     (bin (fmul ar) (plain (complex_of_real (2 * pi)))
                                                    (plain (complex_of_real (L s))))
                                     (plain (of_nat i)))
                                  (plain (of_int (N s))))
                          [0..<nat (N s)])) (\<lambda>xs.
         if L s = 0 then Inl FloatingPointError
         else
         ebind (collect (map (\<lambda>p. bin (fdiv ar) (plain (complex_of_real p))
                                                (plain (complex_of_real (L s))))
                          (arange 0 h @ [0] @ arange (- h + 1) 0))) (\<lambda>ks.
         ebind (case coeffs of
                  None \<Rightarrow>
                    collect (map (\<lambda>p. bin (fsub ar) (pw 2 (plain (complex_of_real (Re p))))
                                                    (pw 4 (plain (complex_of_real (Re p)))))
                              ks)
                | Some cs \<Rightarrow>
                    (let q = (\<lambda>p. plain (complex_of_real (Re p)));
                         t0 = (\<lambda>p. bin (fmul ar) (plain (- complex_of_real (cs ! 0))) (plain 1));
                         t1 = (\<lambda>p. bin (fmul ar) (plain (complex_of_real (cs ! 1) * \<i>)) (q p));
                         t2 = (\<lambda>p. bin (fmul ar) (plain (complex_of_real (1 + cs ! 2)))
                                                  (pw 2 (q p)));
                         t3 = (\<lambda>p. bin (fmul ar) (plain (complex_of_real (cs ! 3) * \<i>))
                                                  (pw 3 (q p)));
                         t4 = (\<lambda>p. bin (fmul ar) (plain (complex_of_real (1 + cs ! 4)))
                                                  (pw 4 (q p)));
                         a1 = (\<lambda>p. bin (fsub ar) (t0 p) (t1 p));
                         a2 = (\<lambda>p. bin (fadd ar) (a1 p) (t2 p));
                         a3 = (\<lambda>p. bin (fadd ar) (a2 p) (t3 p));
                         a4 = (\<lambda>p. bin (fsub ar) (a3 p) (t4 p))
                     in if length cs < 1 then Inl IndexError
                        else ebind (collect (map t0 ks)) (\<lambda>w0.
                        if length cs < 2 then Inl IndexError
                        else ebind (collect (map a1 ks)) (\<lambda>w1.
                        if length cs < 3 then Inl IndexError
                        else ebind (collect (map a2 ks)) (\<lambda>w2.
                        if length cs < 4 then Inl IndexError
                        else ebind (collect (map a3 ks)) (\<lambda>w3.
                        if length cs < 5 then Inl IndexError
                        else collect (map a4 ks))))))) (\<lambda>ls.
         Inr (s\<lparr>x := map Re xs, k := map Re ks, l := ls\<rparr>)))))"

text \<open>
  The contour points \<^verbatim>\<open>np.exp(1j*pi*(np.r_[1:M+1]-0.5)/M)\<close>: fixed numbers of
  modulus one, where nothing can overflow.
\<close>

definition contour :: "nat \<Rightarrow> complex list" where
  "contour m =
     map (\<lambda>i. exp (\<i> * complex_of_real pi * (of_nat i - 0.5) / of_nat m)) [1..<m + 1]"

text \<open>
  \<^verbatim>\<open>np.mean(a, 1)\<close> of one row, the sum divided by the count, and
  \<^verbatim>\<open>self.dt*np.real(np.mean(f(self.LR), 1))\<close> for all rows.
\<close>

definition fmean :: "fpu \<Rightarrow> flagged list \<Rightarrow> flagged" where
  "fmean ar zs = bin (fdiv ar) (foldl (bin (fadd ar)) (plain 0) zs) (plain (of_nat (length zs)))"

definition avg :: "fpu \<Rightarrow> real \<Rightarrow> (flagged \<Rightarrow> flagged) \<Rightarrow> complex list list \<Rightarrow> error + real list" where
  "avg ar d f rows =
     map_sum id (map Re)
       (collect (map (\<lambda>row. bin (fmul ar) (plain (complex_of_real d))
                               (un (\<lambda>z. (complex_of_real (Re z), False))
                                   (fmean ar (map (\<lambda>z. f (plain z)) row))))
                  rows))"

text \<open>
  \<open>setup_etdrk4\<close>, statement by statement. \<open>LR\<close> adds a \<open>len(l) \<times> M\<close> array to an
  \<open>N \<times> M\<close> one, which broadcasts in the first axis; a contour point that falls on
  \<open>-dt*l[j]\<close> makes the quotients \<open>0/0\<close>, which is invalid whatever the rounding. A
  raise leaves the attributes assigned so far behind; the result keeps only that
  there was one.
\<close>

definition setup_etdrk4 :: "fpu \<Rightarrow> KS \<Rightarrow> error + KS" where
  "setup_etdrk4 ar s =
     (let c = plain (complex_of_real (dt s));
          ex = un (fexp ar);
          pw = (\<lambda>n a. un (\<lambda>z. fpow ar z n) a);
          Mv = 16;
          rv = contour Mv
      in ebind (collect (map (\<lambda>p. ex (bin (fmul ar) c (plain p))) (l s))) (\<lambda>Ev.
         ebind (collect (map (\<lambda>p. ex (bin (fdiv ar) (bin (fmul ar) c (plain p)) (plain 2)))
                          (l s))) (\<lambda>E2v.
         if N s < 0 then Inl ValueError
         else
         ebind (broadcast (l s) (replicate (nat (N s)) ())) (\<lambda>ps.
         ebind (collect_rows
                 (map (\<lambda>(p, u). map (\<lambda>q. bin (fadd ar) (bin (fmul ar) c (plain p)) (plain q)) rv)
                    ps)) (\<lambda>LRv.
         if list_ex (list_ex (\<lambda>z. z = 0)) LRv then Inl FloatingPointError
         else
         ebind (avg ar (dt s)
                 (\<lambda>z. bin (fdiv ar)
                        (bin (fsub ar) (ex (bin (fdiv ar) z (plain 2))) (plain 1)) z)
                 LRv) (\<lambda>Qv.
         ebind (avg ar (dt s)
                 (\<lambda>z. bin (fdiv ar)
                        (bin (fadd ar) (bin (fsub ar) (plain (- 4)) z)
                           (bin (fmul ar) (ex z)
                              (bin (fadd ar)
                                 (bin (fsub ar) (plain 4) (bin (fmul ar) (plain 3) z))
                                 (pw 2 z))))
                        (pw 3 z))
                 LRv) (\<lambda>f1v.
         ebind (avg ar (dt s)
                 (\<lambda>z. bin (fdiv ar)
                        (bin (fadd ar) (bin (fadd ar) (plain 2) z)
                           (bin (fmul ar) (ex z) (bin (fadd ar) (plain (- 2)) z)))
                        (pw 3 z))
                 LRv) (\<lambda>f2v.
         ebind (avg ar (dt s)
                 (\<lambda>z. bin (fdiv ar)
                        (bin (fadd ar)
                           (bin (fsub ar)
                              (bin (fsub ar) (plain (- 4)) (bin (fmul ar) (plain 3) z))
                              (pw 2 z))
                           (bin (fmul ar) (ex z) (bin (fsub ar) (plain 4) z)))
                        (pw 3 z))
                 LRv) (\<lambda>f3v.
         ebind (collect (map (\<lambda>p. bin (fmul ar) (plain (- (\<i> / 2))) (plain (complex_of_real p)))
                          (k s))) (\<lambda>gv.
         Inr (s\<lparr>E := Ev, E2 := E2v, M := Mv, r := rv, LR := LRv, Q := Qv,
                f1 := f1v, f2 := f2v, f3 := f3v, g := gv\<rparr>)))))))))))"

subsection \<open>\<^verbatim>\<open>KS.__init__\<close>\<close>

text \<open>
  The constructor, statement by statement. The object starts with the seven
  attributes assigned before \<^verbatim>\<open>self.IC()\<close>; the others do not exist yet and stand
  here as empty, and each is assigned by one of the four calls before anything reads
  it. The value that \<^verbatim>\<open>self.IC()\<close> returns is dropped. Any raise leaves the
  constructor, so there is no object then. \<^verbatim>\<open>int(tend/dt)\<close> divides two Python
  floats, which raises for a zero divisor, and converts the quotient, which raises
  \<^verbatim>\<open>OverflowError\<close> for an infinity. \<^verbatim>\<open>self.dx\<close>, which nothing reads, is kept as
  the exact number.
\<close>

definition float_quot :: "fpu \<Rightarrow> real \<Rightarrow> real \<Rightarrow> error + int" where
  "float_quot ar a b =
     (if b = 0 then Inl ZeroDivisionError
      else case pdiv ar a b of None \<Rightarrow> Inl OverflowError | Some y \<Rightarrow> Inr (py_int y))"

definition newborn :: "real \<Rightarrow> int \<Rightarrow> real \<Rightarrow> real \<Rightarrow> int \<Rightarrow> int \<Rightarrow> int \<Rightarrow> KS" where
  "newborn L' N' dx' dt' nst iout' nout' =
     \<lparr>L = L', N = N', dx = dx', dt = dt', nsteps = nst, iout = iout', nout = nout',
      u0 = [], v0 = [], v = [], t = 0, stepnum = 0, ioutnum = 0, vv = [], tt = [],
      x = [], k = [], l = [], E = [], E2 = [], M = 0, r = [], LR = [],
      Q = [], f1 = [], f2 = [], f3 = [], g = [], uu = None\<rparr>"

definition construct ::
  "fpu \<Rightarrow> real list \<Rightarrow> real \<Rightarrow> int \<Rightarrow> real \<Rightarrow> int option \<Rightarrow> real \<Rightarrow> int \<Rightarrow> error + KS" where
  "construct ar rnd L' N' dt' nsteps' tend' iout' =
     ebind (case nsteps' of None \<Rightarrow> float_quot ar tend' dt' | Some m \<Rightarrow> Inr m) (\<lambda>nst.
     ebind (if N' = 0 then Inl ZeroDivisionError
            else Inr (2 * pi * L' / real_of_int N')) (\<lambda>dx'.
     ebind (int_quot nst iout') (\<lambda>nout'.
     ebind (IC ar rnd None None False (newborn L' N' dx' dt' nst iout' nout')) (\<lambda>res.
     (case setup_timeseries ar None (snd res) of
        (Some e, s2) \<Rightarrow> Inl e
      | (None, s2) \<Rightarrow> ebind (setup_fourier ar None s2) (setup_etdrk4 ar))))))"

subsection \<open>\<^verbatim>\<open>KS.simulate\<close> and \<^verbatim>\<open>KS.fou2real\<close>\<close>

definition fou2real :: "fpu \<Rightarrow> KS \<Rightarrow> KS" where
  "fou2real ar s = s\<lparr>uu := Some (map (\<lambda>row. map Re (ifft ar row)) (vv s))\<rparr>"

text \<open>
  \<^verbatim>\<open>self.v += correction\<close>: the correction must fit the shape of \<open>v\<close>, the sum is
  written into \<open>v\<close>, and then the flags are looked at.
\<close>

definition iadd :: "fpu \<Rightarrow> complex list \<Rightarrow> complex list \<Rightarrow> error option \<times> complex list" where
  "iadd ar w c =
     (if length c = length w \<or> length c = 1 then
        (let rs = (if length c = length w then map2 (fadd ar) w c
                   else map (\<lambda>p. fadd ar p (hd c)) w)
         in (if list_ex snd rs then Some FloatingPointError else None, map fst rs))
      else (Some ValueError, w))"

text \<open>The sampling at the end of the loop body, outside the \<^verbatim>\<open>try\<close>.\<close>

definition record_sample :: "fpu \<Rightarrow> int \<Rightarrow> KS \<Rightarrow> error option \<times> KS" where
  "record_sample ar n s =
     (if 0 < iout s \<and> n mod iout s = 0 then
        (let s1 = s\<lparr>ioutnum := ioutnum s + 1\<rparr>
         in case set_row ar (ioutnum s1) (v s1) (vv s1) of
              Inl e \<Rightarrow> (Some e, s1)
            | Inr rows \<Rightarrow>
                (let s2 = s1\<lparr>vv := rows\<rparr>
                 in if ioutnum s2 < length (tt s2)
                    then (None, s2\<lparr>tt := (tt s2)[ioutnum s2 := t s2]\<rparr>)
                    else (Some IndexError, s2)))
      else (None, s))"

text \<open>
  The \<^verbatim>\<open>except\<close> clause: only \<^verbatim>\<open>FloatingPointError\<close> is caught, anything else
  leaves \<^verbatim>\<open>simulate\<close>. The result \<open>Inr None\<close> of a loop says that the loop ran to
  its end without returning.
\<close>

definition except :: "error \<Rightarrow> KS \<Rightarrow> (error + int option) \<times> KS" where
  "except e s =
     (if e = FloatingPointError then
        (let s1 = s\<lparr>nout := int (ioutnum s)\<rparr>
         in if N s1 < 0 then (Inl ValueError, s1)
            else (Inr (Some (- 1)),
                  s1\<lparr>vv := resize2 (nat (nout s1 + 1)) (nat (N s1)) (vv s1),
                     tt := resize1 (nat (nout s1 + 1)) (tt s1)\<rparr>))
      else (Inl e, s))"

fun loop_plain :: "fpu \<Rightarrow> int list \<Rightarrow> KS \<Rightarrow> (error + int option) \<times> KS" where
  "loop_plain ar [] s = (Inr None, s)"
| "loop_plain ar (n # ns) s =
     (case step ar s of
        Inl e \<Rightarrow> except e s
      | Inr s1 \<Rightarrow>
          (case record_sample ar n s1 of
             (Some e, s2) \<Rightarrow> (Inl e, s2)
           | (None, s2) \<Rightarrow> loop_plain ar ns s2))"

fun loop_corr :: "fpu \<Rightarrow> complex list \<Rightarrow> int list \<Rightarrow> KS \<Rightarrow> (error + int option) \<times> KS" where
  "loop_corr ar correction [] s = (Inr None, s)"
| "loop_corr ar correction (n # ns) s =
     (case step ar s of
        Inl e \<Rightarrow> except e s
      | Inr s1 \<Rightarrow>
          (case iadd ar (v s1) correction of
             (Some e, w) \<Rightarrow> except e (s1\<lparr>v := w\<rparr>)
           | (None, w) \<Rightarrow>
               (case record_sample ar n (s1\<lparr>v := w\<rparr>) of
                  (Some e, s2) \<Rightarrow> (Inl e, s2)
                | (None, s2) \<Rightarrow> loop_corr ar correction ns s2)))"

text \<open>
  The choice between the two loops, \<^verbatim>\<open>if (correction==[])\<close>. The correction is a
  Python list, as the default is, so that the comparison is that of two lists.
\<close>

definition run_loop :: "fpu \<Rightarrow> complex list \<Rightarrow> int list \<Rightarrow> KS \<Rightarrow> (error + int option) \<times> KS" where
  "run_loop ar correction ns s =
     (if correction = [] then loop_plain ar ns s else loop_corr ar correction ns s)"

definition simulate ::
  "fpu \<Rightarrow> int option \<Rightarrow> int option \<Rightarrow> bool \<Rightarrow> complex list \<Rightarrow> KS \<Rightarrow> (error + int option) \<times> KS" where
  "simulate ar nsteps' iout' restart correction s =
     (let s1 = (case nsteps' of None \<Rightarrow> s | Some m \<Rightarrow> s\<lparr>nsteps := m\<rparr>);
          s2 = (case iout' of None \<Rightarrow> s1 | Some i \<Rightarrow> s1\<lparr>iout := i\<rparr>)
      in case (if restart then
                 (case int_quot (nsteps s2) (iout s2) of
                    Inl e \<Rightarrow> (Some e, s2)
                  | Inr m \<Rightarrow> setup_timeseries ar (Some (nout (s2\<lparr>nout := m\<rparr>))) (s2\<lparr>nout := m\<rparr>))
               else (None, s2)) of
           (Some e, s3) \<Rightarrow> (Inl e, s3)
         | (None, s3) \<Rightarrow>
             (case run_loop ar correction [1..nsteps s3] s3 of
                (Inr None, s4) \<Rightarrow> (Inr None, fou2real ar s4)
              | (res, s4) \<Rightarrow> (res, s4)))"


subsection \<open>The two loops as one\<close>

text \<open>
  The two loops of \<^verbatim>\<open>simulate\<close> differ in the body of the \<^verbatim>\<open>try\<close> block only. The
  bodies on their own, with what they raise and the object they leave, and a loop
  around any such body, with which both loops are compared below.
\<close>

definition attempt_plain :: "fpu \<Rightarrow> KS \<Rightarrow> error option \<times> KS" where
  "attempt_plain ar s = (case step ar s of Inl e \<Rightarrow> (Some e, s) | Inr s1 \<Rightarrow> (None, s1))"

definition attempt_corr :: "fpu \<Rightarrow> complex list \<Rightarrow> KS \<Rightarrow> error option \<times> KS" where
  "attempt_corr ar correction s =
     (case step ar s of
        Inl e \<Rightarrow> (Some e, s)
      | Inr s1 \<Rightarrow> (case iadd ar (v s1) correction of (res, w) \<Rightarrow> (res, s1\<lparr>v := w\<rparr>)))"

definition attempt :: "fpu \<Rightarrow> complex list \<Rightarrow> KS \<Rightarrow> error option \<times> KS" where
  "attempt ar correction =
     (if correction = [] then attempt_plain ar else attempt_corr ar correction)"

fun loop_with ::
  "(KS \<Rightarrow> error option \<times> KS) \<Rightarrow> fpu \<Rightarrow> int list \<Rightarrow> KS \<Rightarrow> (error + int option) \<times> KS" where
  "loop_with body ar [] s = (Inr None, s)"
| "loop_with body ar (n # ns) s =
     (case body s of
        (Some e, s1) \<Rightarrow> except e s1
      | (None, s1) \<Rightarrow>
          (case record_sample ar n s1 of
             (Some e, s2) \<Rightarrow> (Inl e, s2)
           | (None, s2) \<Rightarrow> loop_with body ar ns s2))"

subsection \<open>The quantities the specification names\<close>

text \<open>
  The mean of \<open>f\<close> over the sixteen contour points \<open>z + r\<^sub>m\<close>,
  \<open>r\<^sub>m = exp (\<i> \<pi> (m - 1/2) / 16)\<close> for \<open>m = 1, \<dots>, 16\<close>.
\<close>

definition contour_mean :: "(complex \<Rightarrow> complex) \<Rightarrow> complex \<Rightarrow> complex" where
  "contour_mean f z =
     (\<Sum>m = 1..16. f (z + exp (\<i> * complex_of_real pi * (of_nat m - 1 / 2) / 16))) / 16"

text \<open>
  The invariant of the sample buffers, the shape of \<open>vv\<close> (every row has \<open>N\<close>
  columns), and the room that the samples of the loop indices \<open>ns\<close> still need.
\<close>

definition buffers_ok :: "KS \<Rightarrow> bool" where
  "buffers_ok s \<longleftrightarrow>
     int (length (vv s)) = nout s + 1 \<and> int (length (tt s)) = nout s + 1 \<and>
     int (ioutnum s) \<le> nout s"

definition rect :: "KS \<Rightarrow> bool" where
  "rect s \<longleftrightarrow> list_all (\<lambda>row. int (length row) = N s) (vv s)"

definition room :: "int list \<Rightarrow> KS \<Rightarrow> bool" where
  "room ns s \<longleftrightarrow>
     (0 < iout s \<longrightarrow>
        int (ioutnum s) + int (length (filter (\<lambda>n. n mod iout s = 0) ns)) \<le> nout s)"

subsection \<open>Concrete instances\<close>

text \<open>
  The discrete Fourier transform and its inverse in exact arithmetic, which is what
  \<^verbatim>\<open>scipy.fftpack.fft\<close> and \<^verbatim>\<open>ifft\<close> approximate.
\<close>

definition dft :: "complex list \<Rightarrow> complex list" where
  "dft xs =
     map (\<lambda>q. sum_list (map (\<lambda>j. xs ! j *
                  exp (- 2 * complex_of_real pi * \<i> * of_nat j * of_nat q / of_nat (length xs)))
                [0..<length xs]))
       [0..<length xs]"

definition idft :: "complex list \<Rightarrow> complex list" where
  "idft xs =
     map (\<lambda>q. sum_list (map (\<lambda>j. xs ! j *
                  exp (2 * complex_of_real pi * \<i> * of_nat j * of_nat q / of_nat (length xs)))
                [0..<length xs]) / of_nat (length xs))
       [0..<length xs]"

text \<open>
  Exact arithmetic with a largest magnitude \<open>B\<close>: a result beyond it signals overflow,
  and so does a division by zero. With \<open>B = 2\<^sup>1\<^sup>0\<^sup>2\<^sup>4\<close> the bound is that of double
  precision.
  The store into a single-precision array keeps whole numbers only, a coarse
  stand-in for the shorter mantissa.
\<close>

definition bounded :: "real \<Rightarrow> fpu" where
  "bounded B =
     (let over = (\<lambda>z. B < \<bar>Re z\<bar> \<or> B < \<bar>Im z\<bar>)
      in \<lparr>fadd = (\<lambda>p q. (p + q, over (p + q))), fsub = (\<lambda>p q. (p - q, over (p - q))),
          fmul = (\<lambda>p q. (p * q, over (p * q))),
          fdiv = (\<lambda>p q. (p / q, q = 0 \<or> over (p / q))),
          fexp = (\<lambda>p. (exp p, over (exp p))), fpow = (\<lambda>p n. (p ^ n, over (p ^ n))),
          pdiv = (\<lambda>a b. if B < \<bar>a / b\<bar> then None else Some (a / b)),
          fft = dft, ifft = idft,
          c64 = (\<lambda>z. Complex (of_int \<lfloor>Re z\<rfloor>) (of_int \<lfloor>Im z\<rfloor>))\<rparr>)"

text \<open>A solver on one mode, ready for a run of two steps that samples every step.\<close>

definition demo :: KS where
  "demo = \<lparr>L = 1, N = 1, dx = 2 * pi, dt = 1 / 4, nsteps = 2, iout = 1, nout = 2,
           u0 = [2], v0 = [2], v = [2], t = 0, stepnum = 0, ioutnum = 0,
           vv = [[2], [0], [0]], tt = [0, 0, 0],
           x = [0], k = [0], l = [0], E = [3], E2 = [1], M = 16, r = [], LR = [],
           Q = [1 / 4], f1 = [1 / 16], f2 = [1 / 16], f3 = [1 / 16], g = [- \<i>], uu = None\<rparr>"

text \<open>
  A solver on four points with \<open>L = 16\<close> and a time step of a million, as
  \<^verbatim>\<open>KS(L=16, N=4, dt=1e6)\<close> has it when \<open>setup_etdrk4\<close> is called: the multiplier of
  the modes \<open>k = \<plusminus>1/16\<close> is \<open>255/65536\<close>.
\<close>

definition hot :: KS where
  "hot = demo\<lparr>L := 16, N := 4, dx := 8 * pi, dt := 1000000, nsteps := 0, nout := 0,
               u0 := [0, 0, 0, 0], v0 := [0, 0, 0, 0], v := [0, 0, 0, 0],
               vv := [[0, 0, 0, 0]], tt := [0],
               x := [0, 8 * pi, 16 * pi, 24 * pi], k := [0, 1 / 16, 0, - 1 / 16],
               l := [0, 255 / 65536, 0, 255 / 65536],
               E := [], E2 := [], M := 0, Q := [], f1 := [], f2 := [], f3 := [], g := []\<rparr>"

text \<open>The same solver after its first step and the sample of it.\<close>

definition demo1 :: KS where
  "demo1 = demo\<lparr>v := [6 - 3 * \<i> / 2], t := 1 / 4, stepnum := 1, ioutnum := 1,
                 vv := [[2], [Complex 6 (- 2)], [0]], tt := [0, 1 / 4, 0]\<rparr>"

section \<open>Properties\<close>

subsection \<open>Array operations in exact arithmetic\<close>













lemma length_pointwise [simp]:
  "length (had xs ys) = min (length xs) (length ys)"
  "length (vplus xs ys) = min (length xs) (length ys)"
  "length (vminus xs ys) = min (length xs) (length ys)"
  "length (twice xs) = length xs"
  by (simp_all add: had_def vplus_def vminus_def twice_def)

lemma dft_single: "dft [z] = [z]"
  by (simp add: dft_def)

lemma idft_single: "idft [z] = [z]"
  by (simp add: idft_def)

lemma keeps_length_dft: "keeps_length n dft"
  by (simp add: keeps_length_def dft_def)

lemma keeps_length_idft: "keeps_length n idft"
  by (simp add: keeps_length_def idft_def)

subsection \<open>The step\<close>




subsection \<open>The initial condition\<close>

text \<open>
  C7. A spectral vector \<open>v0\<close> whose length is not \<open>N\<close>, and a physical vector \<open>u0\<close>
  whose length is not \<open>N\<close> when no \<open>v0\<close> is given, make \<open>IC\<close> return the error code
  \<open>-1\<close> and leave the object exactly as it was: \<open>u0\<close>, \<open>v0\<close>, \<open>v\<close>, \<open>t\<close>, \<open>stepnum\<close> and
  \<open>ioutnum\<close> keep their values, and nothing is cut or padded. (When both vectors are
  given, \<open>v0\<close> is the one that is used and checked.)
\<close>

theorem IC_wrong_size:
  assumes "(\<exists>b. v0' = Some b \<and> int (length b) \<noteq> N s) \<or>
           (v0' = None \<and> (\<exists>a. u0' = Some a \<and> int (length a) \<noteq> N s))"
  shows "IC ar rnd u0' v0' testing s = Inr (Some (- 1), s)"
  using assms by (auto simp add: IC_def)

theorem IC_wrong_size_witness:
  "((\<exists>b. Some [1, 2 :: complex] = Some b \<and> int (length b) \<noteq> N demo) \<or>
    (Some [1, 2 :: complex] = None \<and>
       (\<exists>a. (None :: complex list option) = Some a \<and> int (length a) \<noteq> N demo))) \<and>
   ((\<exists>b. (None :: complex list option) = Some b \<and> int (length b) \<noteq> N demo) \<or>
    ((None :: complex list option) = None \<and>
       (\<exists>a. Some [] = Some a \<and> int (length a) \<noteq> N demo))) \<and>
   IC (bounded 30) [] None (Some [1, 2]) False demo = Inr (Some (- 1), demo) \<and>
   IC (bounded 30) [] (Some []) None False demo = Inr (Some (- 1), demo)"
proof -
  have a: "(\<exists>b. Some [1, 2 :: complex] = Some b \<and> int (length b) \<noteq> N demo) \<or>
    (Some [1, 2 :: complex] = None \<and>
       (\<exists>a. (None :: complex list option) = Some a \<and> int (length a) \<noteq> N demo))"
    by (simp add: demo_def)
  have b: "(\<exists>b. (None :: complex list option) = Some b \<and> int (length b) \<noteq> N demo) \<or>
    ((None :: complex list option) = None \<and>
       (\<exists>a. Some [] = Some a \<and> int (length a) \<noteq> N demo))"
    by (simp add: demo_def)
  show ?thesis
    using a b IC_wrong_size [OF a, of "bounded 30" "[]" False]
      IC_wrong_size [OF b, of "bounded 30" "[]" False]
    by simp
qed

subsection \<open>The coefficients\<close>

lemma mean_contour:
  "mean (map f (map (\<lambda>q. z + q) (contour 16))) = contour_mean f z"
proof -
  have "sum_list (map f (map (\<lambda>q. z + q) (contour 16)))
        = (\<Sum>m = 1..16. f (z + exp (\<i> * complex_of_real pi * (of_nat m - 1 / 2) / 16)))"
  proof -
    have "{Suc 0..<17} = {Suc 0..16::nat}"
      by auto
    then show ?thesis
      unfolding contour_def
      by (simp add: comp_def interv_sum_list_conv_sum_set_nat del: upt_Suc)
  qed
  then show ?thesis
    by (simp add: mean_def contour_mean_def contour_def)
qed

lemma broadcast_unit:
  "broadcast xs (replicate (length xs) ()) = Inr (map (\<lambda>p. (p, ())) xs)"
  by (simp add: broadcast_def zip_replicate2)

text \<open>Array expressions in exact arithmetic: the values, and no signal.\<close>

lemma exact_sel:
  "fadd (exact F Fi) = (\<lambda>p q. (p + q, False))" "fsub (exact F Fi) = (\<lambda>p q. (p - q, False))"
  "fmul (exact F Fi) = (\<lambda>p q. (p * q, False))" "fdiv (exact F Fi) = (\<lambda>p q. (p / q, False))"
  "fexp (exact F Fi) = (\<lambda>p. (exp p, False))" "fpow (exact F Fi) = (\<lambda>p n. (p ^ n, False))"
  "pdiv (exact F Fi) = (\<lambda>a b. Some (a / b))" "fft (exact F Fi) = F" "ifft (exact F Fi) = Fi"
  by (simp_all add: exact_def)

lemma collect_plain: "collect (map (\<lambda>p. (h p, False)) xs) = Inr (map h xs)"
  by (simp add: collect_def list_ex_iff comp_def)

lemma collect_rows_plain:
  "collect_rows (map (\<lambda>p. map (\<lambda>q. (h p q, False)) ys) xs) = Inr (map (\<lambda>p. map (h p) ys) xs)"
  by (simp add: collect_rows_def list_ex_iff comp_def)

lemma foldl_exact:
  "foldl (bin (\<lambda>p q. (p + q, False))) (a, False) (map (\<lambda>z. (h z, False)) zs)
     = (a + sum_list (map h zs), False)"
  by (induction zs arbitrary: a) (simp_all add: bin_def add.assoc)

lemma fmean_exact:
  "fmean (exact F Fi) (map (\<lambda>z. (h z, False)) zs) = (mean (map h zs), False)"
  using foldl_exact [of 0 h zs]
  by (simp add: fmean_def exact_sel plain_def bin_def mean_def)

lemma avg_exact:
  assumes "\<And>z. f (z, False) = (h z, False)"
  shows "avg (exact F Fi) d f rows = Inr (map (\<lambda>row. d * Re (mean (map h row))) rows)"
proof -
  have "bin (fmul (exact F Fi)) (plain (complex_of_real d))
          (un (\<lambda>z. (complex_of_real (Re z), False)) (fmean (exact F Fi) (map (\<lambda>z. f (plain z)) row)))
        = (complex_of_real (d * Re (mean (map h row))), False)" for row
    by (simp add: assms fmean_exact bin_def un_def plain_def exact_sel)
  then show ?thesis
    by (simp add: avg_def collect_plain comp_def)
qed

text \<open>
  The object that \<open>setup_etdrk4\<close> leaves in exact arithmetic when \<open>l\<close> has \<open>N\<close>
  entries and no contour point is zero.
\<close>

lemma setup_etdrk4_result:
  assumes len: "int (length (l s)) = N s"
    and nz: "\<forall>p \<in> set (l s). \<forall>q \<in> set (contour 16). complex_of_real (dt s) * p + q \<noteq> 0"
  shows "setup_etdrk4 (exact F Fi) s =
     Inr (s\<lparr>E := map (\<lambda>p. exp (complex_of_real (dt s) * p)) (l s),
            E2 := map (\<lambda>p. exp (complex_of_real (dt s) * p / 2)) (l s),
            M := 16, r := contour 16,
            LR := map (\<lambda>p. map (\<lambda>q. complex_of_real (dt s) * p + q) (contour 16)) (l s),
            Q := map (\<lambda>p. dt s * Re (contour_mean (\<lambda>z. (exp (z / 2) - 1) / z)
                                       (complex_of_real (dt s) * p))) (l s),
            f1 := map (\<lambda>p. dt s * Re (contour_mean
                         (\<lambda>z. (- 4 - z + exp z * (4 - 3 * z + z\<^sup>2)) / z^3)
                         (complex_of_real (dt s) * p))) (l s),
            f2 := map (\<lambda>p. dt s * Re (contour_mean (\<lambda>z. (2 + z + exp z * (- 2 + z)) / z^3)
                         (complex_of_real (dt s) * p))) (l s),
            f3 := map (\<lambda>p. dt s * Re (contour_mean
                         (\<lambda>z. (- 4 - 3 * z - z\<^sup>2 + exp z * (4 - z)) / z^3)
                         (complex_of_real (dt s) * p))) (l s),
            g := map (\<lambda>p. - (\<i> / 2) * complex_of_real p) (k s)\<rparr>)"
proof -
  let ?ar = "exact F Fi"
  let ?c = "complex_of_real (dt s)"
  let ?LR = "map (\<lambda>p. map (\<lambda>q. ?c * p + q) (contour 16)) (l s)"
  have N: "\<not> N s < 0" "nat (N s) = length (l s)"
    using len by auto
  have bc: "broadcast (l s) (replicate (nat (N s)) ()) = Inr (map (\<lambda>p. (p, ())) (l s))"
    using N broadcast_unit [of "l s"] by simp
  have ok: "\<not> list_ex (list_ex (\<lambda>z. z = 0)) ?LR"
    using nz by (auto simp add: list_ex_iff)
  have a1: "collect (map (\<lambda>p. un (fexp ?ar) (bin (fmul ?ar) (plain ?c) (plain p))) (l s))
            = Inr (map (\<lambda>p. exp (?c * p)) (l s))"
    by (simp add: un_def bin_def plain_def exact_sel collect_plain)
  have a2: "collect (map (\<lambda>p. un (fexp ?ar)
                (bin (fdiv ?ar) (bin (fmul ?ar) (plain ?c) (plain p)) (plain 2))) (l s))
            = Inr (map (\<lambda>p. exp (?c * p / 2)) (l s))"
    by (simp add: un_def bin_def plain_def exact_sel collect_plain)
  have a3: "collect_rows (map (\<lambda>(p, u). map (\<lambda>q. bin (fadd ?ar) (bin (fmul ?ar) (plain ?c) (plain p)) (plain q))
                (contour 16)) (map (\<lambda>p. (p, ())) (l s))) = Inr ?LR"
    using collect_rows_plain [of "\<lambda>p q. ?c * p + q" "contour 16" "l s"]
    by (simp add: bin_def plain_def exact_sel comp_def)
  have mc: "map (\<lambda>row. dt s * Re (mean (map f row))) ?LR
             = map (\<lambda>p. dt s * Re (contour_mean f (?c * p))) (l s)" for f
    by (rule nth_equalityI) (simp_all add: mean_contour del: map_map)
  have q: "avg ?ar (dt s)
             (\<lambda>z. bin (fdiv ?ar) (bin (fsub ?ar) (un (fexp ?ar) (bin (fdiv ?ar) z (plain 2))) (plain 1)) z)
             ?LR
           = Inr (map (\<lambda>p. dt s * Re (contour_mean (\<lambda>z. (exp (z / 2) - 1) / z) (?c * p))) (l s))"
    unfolding mc [symmetric]
    by (rule avg_exact) (simp add: un_def bin_def plain_def exact_sel)
  have f1: "avg ?ar (dt s)
             (\<lambda>z. bin (fdiv ?ar)
                    (bin (fadd ?ar) (bin (fsub ?ar) (plain (- 4)) z)
                       (bin (fmul ?ar) (un (fexp ?ar) z)
                          (bin (fadd ?ar)
                             (bin (fsub ?ar) (plain 4) (bin (fmul ?ar) (plain 3) z))
                             (un (\<lambda>z. fpow ?ar z 2) z))))
                    (un (\<lambda>z. fpow ?ar z 3) z))
             ?LR
           = Inr (map (\<lambda>p. dt s * Re (contour_mean
                         (\<lambda>z. (- 4 - z + exp z * (4 - 3 * z + z\<^sup>2)) / z^3) (?c * p))) (l s))"
    unfolding mc [symmetric]
    by (rule avg_exact) (simp add: un_def bin_def plain_def exact_sel)
  have f2: "avg ?ar (dt s)
             (\<lambda>z. bin (fdiv ?ar)
                    (bin (fadd ?ar) (bin (fadd ?ar) (plain 2) z)
                       (bin (fmul ?ar) (un (fexp ?ar) z) (bin (fadd ?ar) (plain (- 2)) z)))
                    (un (\<lambda>z. fpow ?ar z 3) z))
             ?LR
           = Inr (map (\<lambda>p. dt s * Re (contour_mean (\<lambda>z. (2 + z + exp z * (- 2 + z)) / z^3)
                         (?c * p))) (l s))"
    unfolding mc [symmetric]
    by (rule avg_exact) (simp add: un_def bin_def plain_def exact_sel)
  have f3: "avg ?ar (dt s)
             (\<lambda>z. bin (fdiv ?ar)
                    (bin (fadd ?ar)
                       (bin (fsub ?ar)
                          (bin (fsub ?ar) (plain (- 4)) (bin (fmul ?ar) (plain 3) z))
                          (un (\<lambda>z. fpow ?ar z 2) z))
                       (bin (fmul ?ar) (un (fexp ?ar) z) (bin (fsub ?ar) (plain 4) z)))
                    (un (\<lambda>z. fpow ?ar z 3) z))
             ?LR
           = Inr (map (\<lambda>p. dt s * Re (contour_mean
                         (\<lambda>z. (- 4 - 3 * z - z\<^sup>2 + exp z * (4 - z)) / z^3) (?c * p))) (l s))"
    unfolding mc [symmetric]
    by (rule avg_exact) (simp add: un_def bin_def plain_def exact_sel)
  have gg: "collect (map (\<lambda>p. bin (fmul ?ar) (plain (- (\<i> / 2))) (plain (complex_of_real p))) (k s))
            = Inr (map (\<lambda>p. - (\<i> / 2) * complex_of_real p) (k s))"
    by (simp add: bin_def plain_def exact_sel collect_plain)
  show ?thesis
    unfolding setup_etdrk4_def Let_def a1 a2 bc
    using N(1) ok by (simp add: ebind_def a3 q f1 f2 f3 gg del: map_map)
qed

text \<open>A multiplier whose exponential signals makes the first statement raise.\<close>

lemma setup_etdrk4_signal:
  assumes "list_ex (\<lambda>p. snd (un (fexp ar) (bin (fmul ar) (plain (complex_of_real (dt s))) (plain p))))
             (l s)"
  shows "setup_etdrk4 ar s = Inl FloatingPointError"
  using assms
  by (simp add: setup_etdrk4_def Let_def collect_def ebind_def list_ex_iff)

lemma exp_beyond_double: "2 ^ 1024 < exp (1000000 * 255 / 65536 :: real)"
proof -
  have "(2::real) ^ 1024 < 3 ^ 1024"
    by (rule power_strict_mono) simp_all
  also have "\<dots> \<le> exp 2 ^ 1024"
    using exp_ge_add_one_self [of 2] by (intro power_mono) simp_all
  also have "\<dots> = exp (real 1024 * 2)"
    by (rule exp_of_nat_mult [symmetric])
  also have "\<dots> \<le> exp (1000000 * 255 / 65536)"
    by simp
  finally show ?thesis .
qed

text \<open>
  The solver \<open>hot\<close> carries the grid, wavenumbers and multipliers that \<open>setup_fourier\<close>
  computes for \<open>L = 16\<close> and four points.
\<close>

lemma hot_fourier: "setup_fourier (exact dft idft) None hot = Inr hot"
  by (simp add: setup_fourier_def Let_def ebind_def collect_def bin_def un_def plain_def
      exact_sel hot_def demo_def arange_def upt_rec numeral_eq_Suc)

text \<open>
  C2, as the claim states it, fails: not every configuration gets its coefficients.
  With \<open>L = 16\<close>, four points and \<open>dt = 10\<^sup>6\<close>, in arithmetic with the range of double
  precision, \<^verbatim>\<open>np.exp(self.dt*self.l)\<close> overflows and \<open>setup_etdrk4\<close> raises
  \<^verbatim>\<open>FloatingPointError\<close>.
\<close>

theorem setup_etdrk4_overflows:
  "setup_etdrk4 (bounded (2 ^ 1024)) hot = Inl FloatingPointError"
proof -
  have "complex_of_real 1000000 * (255 / 65536) = complex_of_real (1000000 * 255 / 65536)"
    by simp
  then have "Re (exp (complex_of_real 1000000 * (255 / 65536))) = exp (1000000 * 255 / 65536)"
    by (simp only: exp_of_real Re_complex_of_real)
  with exp_beyond_double
  have "2 ^ 1024 < \<bar>Re (exp (complex_of_real 1000000 * (255 / 65536)))\<bar>"
    by simp
  then have "snd (un (fexp (bounded (2 ^ 1024)))
      (bin (fmul (bounded (2 ^ 1024))) (plain (complex_of_real (dt hot))) (plain (255 / 65536))))"
    by (simp add: un_def bin_def plain_def bounded_def Let_def hot_def demo_def)
  moreover have "255 / 65536 \<in> set (l hot)"
    by (simp add: hot_def demo_def)
  ultimately show ?thesis
    by (intro setup_etdrk4_signal) (auto simp add: list_ex_iff)
qed

text \<open>
  C2, amended. For a time step \<open>dt\<close> and multipliers \<open>l\<close>, \<open>k\<close> on \<open>N\<close> modes, when no
  operation of the setup signals overflow or invalid (the arithmetic is exact, and
  no contour point falls on \<open>-dt l\<^sub>j\<close>, so that every quotient is defined),
  \<open>setup_etdrk4\<close> succeeds and leaves seven arrays of \<open>N\<close> entries with, for every
  mode \<open>j\<close>: \<open>E\<^sub>j = exp (dt l\<^sub>j)\<close>, \<open>E2\<^sub>j = exp (dt l\<^sub>j / 2)\<close>, \<open>g\<^sub>j = - \<i> k\<^sub>j / 2\<close>, and
  \<open>Q\<^sub>j\<close>, \<open>f1\<^sub>j\<close>, \<open>f2\<^sub>j\<close>, \<open>f3\<^sub>j\<close> equal to \<open>dt\<close> times the real part of the mean, over
  the sixteen points \<open>z = dt l\<^sub>j + r\<^sub>m\<close>, of \<open>(e\<^sup>z\<^sup>/\<^sup>2 - 1)/z\<close>,
  \<open>(-4 - z + e\<^sup>z (4 - 3z + z\<^sup>2))/z\<^sup>3\<close>, \<open>(2 + z + e\<^sup>z (-2 + z))/z\<^sup>3\<close> and
  \<open>(-4 - 3z - z\<^sup>2 + e\<^sup>z (4 - z))/z\<^sup>3\<close>.
\<close>

theorem setup_etdrk4_coefficients:
  assumes len: "int (length (l s)) = N s" "length (k s) = length (l s)"
    and nz: "\<forall>p \<in> set (l s). \<forall>q \<in> set (contour 16). complex_of_real (dt s) * p + q \<noteq> 0"
  shows "\<exists>s'. setup_etdrk4 (exact F Fi) s = Inr s' \<and>
           length (E s') = length (l s) \<and> length (E2 s') = length (l s) \<and>
           length (Q s') = length (l s) \<and> length (f1 s') = length (l s) \<and>
           length (f2 s') = length (l s) \<and> length (f3 s') = length (l s) \<and>
           length (g s') = length (l s) \<and>
           (\<forall>j < length (l s).
              E s' ! j = exp (complex_of_real (dt s) * l s ! j) \<and>
              E2 s' ! j = exp (complex_of_real (dt s) * l s ! j / 2) \<and>
              g s' ! j = - \<i> * complex_of_real (k s ! j) / 2 \<and>
              Q s' ! j = dt s * Re (contour_mean (\<lambda>z. (exp (z / 2) - 1) / z)
                                     (complex_of_real (dt s) * l s ! j)) \<and>
              f1 s' ! j = dt s * Re (contour_mean
                                     (\<lambda>z. (- 4 - z + exp z * (4 - 3 * z + z\<^sup>2)) / z^3)
                                     (complex_of_real (dt s) * l s ! j)) \<and>
              f2 s' ! j = dt s * Re (contour_mean (\<lambda>z. (2 + z + exp z * (- 2 + z)) / z^3)
                                     (complex_of_real (dt s) * l s ! j)) \<and>
              f3 s' ! j = dt s * Re (contour_mean
                                     (\<lambda>z. (- 4 - 3 * z - z\<^sup>2 + exp z * (4 - z)) / z^3)
                                     (complex_of_real (dt s) * l s ! j)))"
  unfolding setup_etdrk4_result [OF len(1) nz]
  using len(2) by simp

lemma contour_Im_pos:
  assumes "q \<in> set (contour 16)"
  shows "0 < Im q"
proof -
  from assms obtain i where i: "1 \<le> i" "i < 17"
    and q: "q = exp (\<i> * complex_of_real pi * (of_nat i - 0.5) / 16)"
    by (auto simp add: contour_def)
  let ?th = "pi * (real i - 1 / 2) / 16"
  have "q = exp (\<i> * complex_of_real ?th)"
    unfolding q by (simp add: field_simps)
  then have "Im q = sin ?th"
    by (simp add: Im_exp)
  moreover have "0 < ?th"
    using i by simp
  moreover have "?th < pi"
  proof -
    have "(real i - 1 / 2) / 16 < 1"
      using i by simp
    then have "pi * ((real i - 1 / 2) / 16) < pi * 1"
      by (intro mult_strict_left_mono) simp_all
    then show ?thesis by simp
  qed
  ultimately show ?thesis
    by (simp add: sin_gt_zero)
qed

text \<open>Real multipliers, which are what the constructor computes, keep off the contour.\<close>

lemma contour_clear_of_reals:
  assumes "Im p = 0" "q \<in> set (contour 16)"
  shows "complex_of_real d * p + q \<noteq> 0"
proof
  assume "complex_of_real d * p + q = 0"
  then have "Im (complex_of_real d * p + q) = 0"
    by simp
  then have "Im q = 0"
    using assms(1) by simp
  with contour_Im_pos [OF assms(2)] show False
    by simp
qed

theorem setup_etdrk4_coefficients_witness:
  "int (length (l demo)) = N demo \<and> length (k demo) = length (l demo) \<and>
   \<not> list_ex (\<lambda>p. list_ex (\<lambda>q. complex_of_real (dt demo) * p + q = 0) (contour 16)) (l demo) \<and>
   (\<exists>s'. setup_etdrk4 (exact dft idft) demo = Inr s' \<and> E s' = [1] \<and> E2 s' = [1] \<and> g s' = [0] \<and>
      Q s' = [1 / 4 * Re (contour_mean (\<lambda>z. (exp (z / 2) - 1) / z) 0)])"
proof -
  have a: "int (length (l demo)) = N demo" and b: "length (k demo) = length (l demo)"
    by (simp_all add: demo_def)
  have c: "\<forall>p \<in> set (l demo). \<forall>q \<in> set (contour 16). complex_of_real (dt demo) * p + q \<noteq> 0"
  proof -
    have "q \<noteq> 0" if "q \<in> set (contour 16)" for q
      using contour_Im_pos [OF that] by auto
    then show ?thesis
      by (simp add: demo_def)
  qed
  from setup_etdrk4_coefficients [OF a b c, of dft idft] obtain s' where s': "setup_etdrk4 (exact dft idft) demo = Inr s'"
    "length (E s') = length (l demo)" "length (E2 s') = length (l demo)"
    "length (Q s') = length (l demo)" "length (g s') = length (l demo)"
    and vals: "\<forall>j < length (l demo).
       E s' ! j = exp (complex_of_real (dt demo) * l demo ! j) \<and>
       E2 s' ! j = exp (complex_of_real (dt demo) * l demo ! j / 2) \<and>
       g s' ! j = - \<i> * complex_of_real (k demo ! j) / 2 \<and>
       Q s' ! j = dt demo * Re (contour_mean (\<lambda>z. (exp (z / 2) - 1) / z)
                                 (complex_of_real (dt demo) * l demo ! j))"
    by blast
  have l1: "length (l demo) = 1" "l demo ! 0 = 0" "k demo ! 0 = 0" "dt demo = 1 / 4"
    by (simp_all add: demo_def)
  from vals l1 have v0: "E s' ! 0 = 1" "E2 s' ! 0 = 1" "g s' ! 0 = 0"
    "Q s' ! 0 = 1 / 4 * Re (contour_mean (\<lambda>z. (exp (z / 2) - 1) / z) 0)"
    by simp_all
  have single: "length xs = 1 \<Longrightarrow> xs = [xs ! 0]" for xs :: "'a list"
    by (cases xs) simp_all
  have "E s' = [1]" "E2 s' = [1]" "g s' = [0]"
    "Q s' = [1 / 4 * Re (contour_mean (\<lambda>z. (exp (z / 2) - 1) / z) 0)]"
    using single [of "E s'"] single [of "E2 s'"] single [of "g s'"] single [of "Q s'"]
      s'(2-5) l1(1) v0 by simp_all
  moreover have "\<not> list_ex (\<lambda>p. list_ex (\<lambda>q. complex_of_real (dt demo) * p + q = 0)
      (contour 16)) (l demo)"
    using c by (simp add: list_ex_iff)
  ultimately show ?thesis
    using a b s'(1) by blast
qed


subsection \<open>The constructor\<close>

lemma ebind_Inr_iff: "ebind m f = Inr y \<longleftrightarrow> (\<exists>z. m = Inr z \<and> f z = Inr y)"
  by (cases m) (simp_all add: ebind_def)

lemma newborn_sel [simp]:
  "L (newborn a b c d e f h) = a" "N (newborn a b c d e f h) = b"
  "dx (newborn a b c d e f h) = c" "dt (newborn a b c d e f h) = d"
  "nsteps (newborn a b c d e f h) = e" "iout (newborn a b c d e f h) = f"
  "nout (newborn a b c d e f h) = h" "uu (newborn a b c d e f h) = None"
  by (simp_all add: newborn_def)

lemma IC_default:
  assumes "IC ar rnd None None False s = Inr (ret, s1)"
  shows "0 \<le> N s \<and> ret = None \<and>
         s1 = s\<lparr>u0 := map (\<lambda>p. complex_of_real ((p - 0.5) * 0.01)) rnd,
                v0 := fft ar (map (\<lambda>p. complex_of_real ((p - 0.5) * 0.01)) rnd),
                v := fft ar (map (\<lambda>p. complex_of_real ((p - 0.5) * 0.01)) rnd),
                t := 0, stepnum := 0, ioutnum := 0\<rparr>"
  using assms by (auto simp add: IC_def Let_def split: if_splits)

lemma IC_default_ok:
  assumes "0 \<le> N s"
  shows "IC ar rnd None None False s =
         Inr (None, s\<lparr>u0 := map (\<lambda>p. complex_of_real ((p - 0.5) * 0.01)) rnd,
                v0 := fft ar (map (\<lambda>p. complex_of_real ((p - 0.5) * 0.01)) rnd),
                v := fft ar (map (\<lambda>p. complex_of_real ((p - 0.5) * 0.01)) rnd),
                t := 0, stepnum := 0, ioutnum := 0\<rparr>)"
  using assms by (simp add: IC_def Let_def)

lemma set_row_length: "set_row ar i w rows = Inr rows' \<Longrightarrow> length rows' = length rows"
  by (auto simp add: set_row_def split: if_splits)

lemma set_row_widths:
  assumes "set_row ar i w rows = Inr rows'" "list_all (\<lambda>row. int (length row) = n) rows"
  shows "list_all (\<lambda>row. int (length row) = n) rows'"
proof -
  from assms(1) have i: "i < length rows"
    by (auto simp add: set_row_def split: if_splits)
  with assms(2) have w: "int (length (rows ! i)) = n"
    by (simp add: list_all_length)
  from assms(1) i obtain row where row: "rows' = rows[i := row]" "length row = length (rows ! i)"
    by (auto simp add: set_row_def split: if_splits)
  show ?thesis
    unfolding row(1) list_all_length
  proof (intro allI impI)
    fix j assume "j < length (rows[i := row])"
    then show "int (length (rows[i := row] ! j)) = n"
      using assms(2) w row(2) by (cases "j = i") (simp_all add: list_all_length)
  qed
qed

lemma set_row_fits:
  assumes "i < length rows" "length w = length (rows ! i)"
  shows "set_row ar i w rows = Inr (rows[i := map (c64 ar) w])"
  using assms by (simp add: set_row_def)

lemma setup_timeseries_None:
  assumes "setup_timeseries ar None s = (None, s2)"
  shows "\<exists>rows. s2 = s\<lparr>vv := rows, tt := replicate (nat (nout s + 1)) 0\<rparr> \<and>
           set_row ar 0 (v0 s) (replicate (nat (nout s + 1)) (replicate (nat (N s)) 0)) = Inr rows \<and>
           0 \<le> nout s \<and> 0 \<le> N s"
proof -
  from assms have neg: "\<not> (nout s + 1 < 0 \<or> N s < 0)"
    by (auto simp add: setup_timeseries_def split: if_splits)
  with assms obtain rows where
    rows: "set_row ar 0 (v0 s) (replicate (nat (nout s + 1)) (replicate (nat (N s)) 0)) = Inr rows"
    and s2: "s2 = s\<lparr>vv := rows, tt := (replicate (nat (nout s + 1)) 0)[0 := 0]\<rparr>"
    by (auto simp add: setup_timeseries_def Let_def split: sum.splits)
  from rows have "0 < nat (nout s + 1)"
    by (auto simp add: set_row_def split: if_splits)
  then have "0 \<le> nout s" by simp
  moreover have "(replicate m (0::real))[0 := 0] = replicate m 0" for m
    by (cases m) simp_all
  ultimately show ?thesis
    using rows s2 neg by auto
qed

lemma setup_timeseries_ok:
  assumes "0 \<le> nout s" "0 \<le> N s" "int (length (v0 s)) = N s"
  shows "setup_timeseries ar None s =
     (None, s\<lparr>vv := (replicate (nat (nout s + 1)) (replicate (nat (N s)) 0))
                      [0 := map (c64 ar) (v0 s)],
              tt := replicate (nat (nout s + 1)) 0\<rparr>)"
proof -
  have "(replicate m (0::real))[0 := 0] = replicate m 0" for m
    by (cases m) simp_all
  moreover have "set_row ar 0 (v0 s) (replicate (nat (nout s + 1)) (replicate (nat (N s)) 0))
      = Inr ((replicate (nat (nout s + 1)) (replicate (nat (N s)) 0))[0 := map (c64 ar) (v0 s)])"
    using assms by (intro set_row_fits) auto
  ultimately show ?thesis
    using assms by (simp add: setup_timeseries_def Let_def)
qed

lemma length_arange: "length (arange a b) = nat \<lceil>b - a\<rceil>"
  by (simp add: arange_def)

lemma length_wavenumbers:
  assumes "0 < n" "even n"
  shows "length (arange 0 (real_of_int n / 2) @ [0] @ arange (- (real_of_int n / 2) + 1) 0) = nat n"
proof -
  from assms obtain m where m: "n = 2 * m" "0 < m"
    by (auto elim: evenE)
  have "real_of_int n / 2 = real_of_int m"
    using m by simp
  then show ?thesis
    using m by (simp add: length_arange)
qed

lemma collect_length: "collect rs = Inr xs \<Longrightarrow> length xs = length rs"
  by (auto simp add: collect_def split: if_splits)

lemma collect_rows_length: "collect_rows rows = Inr ys \<Longrightarrow> length ys = length rows"
  by (auto simp add: collect_rows_def split: if_splits)

lemma avg_length: "avg ar d f rows = Inr xs \<Longrightarrow> length xs = length rows"
  by (cases "collect (map (\<lambda>row. bin (fmul ar) (plain (complex_of_real d))
                               (un (\<lambda>z. (complex_of_real (Re z), False))
                                   (fmean ar (map (\<lambda>z. f (plain z)) row)))) rows)")
    (auto simp add: avg_def dest: collect_length)

lemma setup_fourier_None:
  assumes "setup_fourier ar None s = Inr s3"
  shows "L s \<noteq> 0 \<and> (\<exists>xs ks ls. s3 = s\<lparr>x := xs, k := ks, l := ls\<rparr>) \<and>
         length (l s3) = length (k s3) \<and>
         length (k s3) = length (arange 0 (real_of_int (N s) / 2) @ [0] @
                                arange (- (real_of_int (N s) / 2) + 1) 0)"
proof -
  let ?grid = "arange 0 (real_of_int (N s) / 2) @ [0] @ arange (- (real_of_int (N s) / 2) + 1) 0"
  from assms have L: "L s \<noteq> 0"
    by (auto simp add: setup_fourier_def Let_def ebind_Inr_iff split: if_splits)
  from assms L have "\<exists>xs ks ls.
      collect (map (\<lambda>p. bin (fdiv ar) (plain (complex_of_real p))
                                        (plain (complex_of_real (L s)))) ?grid) = Inr ks \<and>
      collect (map (\<lambda>p. bin (fsub ar)
                      (un (\<lambda>z. fpow ar z 2) (plain (complex_of_real (Re p))))
                      (un (\<lambda>z. fpow ar z 4) (plain (complex_of_real (Re p))))) ks) = Inr ls \<and>
      s3 = s\<lparr>x := map Re xs, k := map Re ks, l := ls\<rparr>"
    by (simp only: setup_fourier_def Let_def ebind_Inr_iff if_False option.case sum.inject)
      blast
  then obtain xs ks ls where
    ks: "collect (map (\<lambda>p. bin (fdiv ar) (plain (complex_of_real p))
                                        (plain (complex_of_real (L s)))) ?grid) = Inr ks"
    and ls: "collect (map (\<lambda>p. bin (fsub ar)
                      (un (\<lambda>z. fpow ar z 2) (plain (complex_of_real (Re p))))
                      (un (\<lambda>z. fpow ar z 4) (plain (complex_of_real (Re p))))) ks) = Inr ls"
    and s3: "s3 = s\<lparr>x := map Re xs, k := map Re ks, l := ls\<rparr>"
    by blast
  from collect_length [OF ks] collect_length [OF ls] have "length ls = length ks"
    "length ks = length ?grid"
    by simp_all
  with L show ?thesis
    unfolding s3 by auto
qed

text \<open>In exact arithmetic the multipliers of the normal form are real.\<close>

lemma setup_fourier_exact:
  assumes "L s \<noteq> 0"
  shows "\<exists>s3. setup_fourier (exact F Fi) None s = Inr s3 \<and> list_all (\<lambda>p. Im p = 0) (l s3)"
proof -
  let ?ar = "exact F Fi"
  let ?grid = "arange 0 (real_of_int (N s) / 2) @ [0] @ arange (- (real_of_int (N s) / 2) + 1) 0"
  let ?xs = "map (\<lambda>i. complex_of_real (2 * pi) * complex_of_real (L s) * of_nat i / of_int (N s))
               [0..<nat (N s)]"
  let ?ks = "map (\<lambda>p. complex_of_real p / complex_of_real (L s)) ?grid"
  let ?ls = "map (\<lambda>p. complex_of_real (Re p) ^ 2 - complex_of_real (Re p) ^ 4) ?ks"
  have a: "collect (map (\<lambda>i. bin (fdiv ?ar)
                                  (bin (fmul ?ar)
                                     (bin (fmul ?ar) (plain (complex_of_real (2 * pi)))
                                                    (plain (complex_of_real (L s))))
                                     (plain (of_nat i)))
                                  (plain (of_int (N s)))) [0..<nat (N s)]) = Inr ?xs"
    using collect_plain [of "\<lambda>i. complex_of_real (2 * pi) * complex_of_real (L s) * of_nat i
                                   / of_int (N s)" "[0..<nat (N s)]"]
    by (simp add: bin_def plain_def exact_sel)
  have b: "collect (map (\<lambda>p. bin (fdiv ?ar) (plain (complex_of_real p))
                                        (plain (complex_of_real (L s)))) grid) =
           Inr (map (\<lambda>p. complex_of_real p / complex_of_real (L s)) grid)" for grid
    using collect_plain [of "\<lambda>p. complex_of_real p / complex_of_real (L s)" grid]
    by (simp add: bin_def plain_def exact_sel)
  have c: "collect (map (\<lambda>p. bin (fsub ?ar)
                      (un (\<lambda>z. fpow ?ar z 2) (plain (complex_of_real (Re p))))
                      (un (\<lambda>z. fpow ?ar z 4) (plain (complex_of_real (Re p))))) ks) =
           Inr (map (\<lambda>p. complex_of_real (Re p) ^ 2 - complex_of_real (Re p) ^ 4) ks)" for ks
    using collect_plain [of "\<lambda>p. complex_of_real (Re p) ^ 2 - complex_of_real (Re p) ^ 4" ks]
    by (simp add: bin_def un_def plain_def exact_sel)
  have "setup_fourier ?ar None s = Inr (s\<lparr>x := map Re ?xs, k := map Re ?ks, l := ?ls\<rparr>)"
    unfolding setup_fourier_def Let_def a b c
    using assms by (simp add: ebind_def)
  moreover have "list_all (\<lambda>p. Im p = 0) ?ls"
    unfolding list_all_iff by auto
  ultimately show ?thesis
    by simp
qed

lemma setup_etdrk4_frame:
  assumes "setup_etdrk4 ar s = Inr s'"
  shows "s' = s\<lparr>E := E s', E2 := E2 s', M := M s', r := r s', LR := LR s', Q := Q s',
                f1 := f1 s', f2 := f2 s', f3 := f3 s', g := g s'\<rparr>"
  using assms unfolding setup_etdrk4_def Let_def
  by (auto simp add: ebind_Inr_iff split: if_splits)

lemma setup_etdrk4_lengths:
  assumes "setup_etdrk4 ar s = Inr s'" "int (length (l s)) = N s" "length (k s) = length (l s)"
  shows "length (E s') = length (l s) \<and> length (E2 s') = length (l s) \<and>
         length (Q s') = length (l s) \<and> length (f1 s') = length (l s) \<and>
         length (f2 s') = length (l s) \<and> length (f3 s') = length (l s) \<and>
         length (g s') = length (l s)"
proof -
  have N: "\<not> N s < 0" "nat (N s) = length (l s)"
    using assms(2) by auto
  have bc: "broadcast (l s) (replicate (nat (N s)) ()) = Inr (map (\<lambda>p. (p, ())) (l s))"
    using N broadcast_unit [of "l s"] by simp
  show ?thesis
    using assms(1,3) N unfolding setup_etdrk4_def Let_def bc
    by (auto simp add: ebind_Inr_iff split: if_splits
        dest!: collect_length collect_rows_length avg_length)
qed

lemma case_raised_Inr_iff:
  "(case p of (Some e, s2) \<Rightarrow> Inl e | (None, s2) \<Rightarrow> h s2) = Inr y
     \<longleftrightarrow> (\<exists>s2. p = (None, s2) \<and> h s2 = Inr y)"
  by (cases p; cases "fst p") auto

lemma constructE:
  assumes "construct ar rnd L' N' dt' nsteps' tend' iout' = Inr s"
  obtains nst dx' nout' ret s1 s2 s3 where
    "nsteps' = None \<longrightarrow> dt' \<noteq> 0"
    "(case nsteps' of None \<Rightarrow> float_quot ar tend' dt' | Some m \<Rightarrow> Inr m) = Inr nst"
    "N' \<noteq> 0" "iout' \<noteq> 0"
    "nout' = py_int (real_of_int nst / real_of_int iout')"
    "IC ar rnd None None False (newborn L' N' dx' dt' nst iout' nout') = Inr (ret, s1)"
    "setup_timeseries ar None s1 = (None, s2)"
    "setup_fourier ar None s2 = Inr s3"
    "setup_etdrk4 ar s3 = Inr s"
proof -
  from assms have "\<exists>nst dx' nout' p s2 s3.
      (case nsteps' of None \<Rightarrow> float_quot ar tend' dt' | Some m \<Rightarrow> Inr m) = Inr nst \<and>
      (if N' = 0 then Inl ZeroDivisionError else Inr (2 * pi * L' / real_of_int N')) = Inr dx' \<and>
      int_quot nst iout' = Inr nout' \<and>
      IC ar rnd None None False (newborn L' N' dx' dt' nst iout' nout') = Inr p \<and>
      setup_timeseries ar None (snd p) = (None, s2) \<and>
      setup_fourier ar None s2 = Inr s3 \<and> setup_etdrk4 ar s3 = Inr s"
    unfolding construct_def ebind_Inr_iff case_raised_Inr_iff
    by blast
  then obtain nst dx' nout' p s2 s3 where
    a: "(case nsteps' of None \<Rightarrow> float_quot ar tend' dt' | Some m \<Rightarrow> Inr m) = Inr nst"
    and b: "(if N' = 0 then Inl ZeroDivisionError else Inr (2 * pi * L' / real_of_int N')) = Inr dx'"
    and c: "int_quot nst iout' = Inr nout'"
    and d0: "IC ar rnd None None False (newborn L' N' dx' dt' nst iout' nout') = Inr p"
    and e0: "setup_timeseries ar None (snd p) = (None, s2)"
    and f: "setup_fourier ar None s2 = Inr s3"
    and g: "setup_etdrk4 ar s3 = Inr s"
    by blast
  define ret where "ret = fst p"
  define s1 where "s1 = snd p"
  have d: "IC ar rnd None None False (newborn L' N' dx' dt' nst iout' nout') = Inr (ret, s1)"
    and e: "setup_timeseries ar None s1 = (None, s2)"
    using d0 e0 by (simp_all add: ret_def s1_def)
  from a have "nsteps' = None \<longrightarrow> dt' \<noteq> 0"
    by (auto simp add: float_quot_def split: option.splits if_splits)
  moreover note a
  moreover from b have "N' \<noteq> 0"
    by (auto split: if_splits)
  moreover from c have "iout' \<noteq> 0" "nout' = py_int (real_of_int nst / real_of_int iout')"
    by (auto simp add: int_quot_def split: if_splits)
  ultimately show thesis
    using d e f g that by blast
qed

text \<open>What every constructed solver satisfies.\<close>

lemma construct_sound:
  assumes "construct ar rnd L' N' dt' nsteps' tend' iout' = Inr s"
  shows "buffers_ok s \<and> rect s \<and> ioutnum s = 0 \<and> stepnum s = 0 \<and> t s = 0 \<and> uu s = None \<and>
         L s = L' \<and> L' \<noteq> 0 \<and> N s = N' \<and> 0 < N' \<and> dt s = dt' \<and> iout s = iout' \<and> iout' \<noteq> 0 \<and>
         (case nsteps' of None \<Rightarrow> float_quot ar tend' dt' | Some m \<Rightarrow> Inr m) = Inr (nsteps s) \<and>
         nout s = py_int (real_of_int (nsteps s) / real_of_int iout') \<and>
         v s = v0 s \<and> v0 s = fft ar (map (\<lambda>p. complex_of_real ((p - 0.5) * 0.01)) rnd) \<and>
         tt s = replicate (nat (nout s + 1)) 0"
proof -
  from assms obtain nst dx' nout' ret s1 s2 s3 where
    c: "(case nsteps' of None \<Rightarrow> float_quot ar tend' dt' | Some m \<Rightarrow> Inr m) = Inr nst"
      "N' \<noteq> 0" "iout' \<noteq> 0"
      "nout' = py_int (real_of_int nst / real_of_int iout')"
    and ic: "IC ar rnd None None False (newborn L' N' dx' dt' nst iout' nout') = Inr (ret, s1)"
    and ts: "setup_timeseries ar None s1 = (None, s2)"
    and fo: "setup_fourier ar None s2 = Inr s3"
    and et: "setup_etdrk4 ar s3 = Inr s"
    by (rule constructE)
  let ?V = "fft ar (map (\<lambda>p. complex_of_real ((p - 0.5) * 0.01)) rnd)"
  from IC_default [OF ic] have N0: "0 \<le> N'"
    and s1: "s1 = (newborn L' N' dx' dt' nst iout' nout')
               \<lparr>u0 := map (\<lambda>p. complex_of_real ((p - 0.5) * 0.01)) rnd,
                v0 := ?V, v := ?V, t := 0, stepnum := 0, ioutnum := 0\<rparr>"
    by simp_all
  from setup_timeseries_None [OF ts] obtain rows where
    s2: "s2 = s1\<lparr>vv := rows, tt := replicate (nat (nout s1 + 1)) 0\<rparr>"
    and rows: "set_row ar 0 (v0 s1) (replicate (nat (nout s1 + 1)) (replicate (nat (N s1)) 0)) = Inr rows"
    and no: "0 \<le> nout s1"
    by blast
  from setup_fourier_None [OF fo] obtain xs ks ls where
    L: "L s2 \<noteq> 0" and s3: "s3 = s2\<lparr>x := xs, k := ks, l := ls\<rparr>"
    by blast
  note s = setup_etdrk4_frame [OF et]
  have sel1: "nout s1 = nout'" "N s1 = N'" "L s1 = L'" "ioutnum s1 = 0"
    by (simp_all add: s1)
  have len: "length rows = nat (nout' + 1)"
    using set_row_length [OF rows] sel1 by simp
  have wid: "list_all (\<lambda>row. int (length row) = N') rows"
    using set_row_widths [OF rows, of N'] N0 sel1 by (simp add: list_all_iff)
  have f: "vv s = rows" "tt s = replicate (nat (nout' + 1)) 0" "nout s = nout'"
    "ioutnum s = 0" "stepnum s = 0" "t s = 0" "uu s = None" "L s = L'" "N s = N'" "dt s = dt'"
    "iout s = iout'" "nsteps s = nst" "v s = ?V" "v0 s = ?V"
    by (subst s, simp add: s3 s2 s1)+
  show ?thesis
    using c N0 no sel1 L len wid unfolding buffers_ok_def rect_def f
    by (simp add: s2 s1)
qed


lemma construct_ok:
  assumes dt: "nsteps' = None \<longrightarrow> dt' \<noteq> 0"
    and N: "0 < N'" "even N'"
    and L: "L' \<noteq> 0"
    and io: "iout' \<noteq> 0"
    and no: "0 \<le> py_int (real_of_int (case nsteps' of None \<Rightarrow> py_int (tend' / dt')
                                       | Some m \<Rightarrow> m) / real_of_int iout')"
    and tr: "int (length (F (map (\<lambda>p. complex_of_real ((p - 0.5) * 0.01)) rnd))) = N'"
  shows "\<exists>s. construct (exact F Fi) rnd L' N' dt' nsteps' tend' iout' = Inr s"
proof -
  let ?ar = "exact F Fi"
  define nst where "nst = (case nsteps' of None \<Rightarrow> py_int (tend' / dt') | Some m \<Rightarrow> m)"
  define nout' where "nout' = py_int (real_of_int nst / real_of_int iout')"
  define dx' where "dx' = 2 * pi * L' / real_of_int N'"
  let ?V = "fft ?ar (map (\<lambda>p. complex_of_real ((p - 0.5) * 0.01)) rnd)"
  define s1 where "s1 = (newborn L' N' dx' dt' nst iout' nout')
               \<lparr>u0 := map (\<lambda>p. complex_of_real ((p - 0.5) * 0.01)) rnd,
                v0 := ?V, v := ?V, t := 0, stepnum := 0, ioutnum := 0\<rparr>"
  define s2 where "s2 = s1\<lparr>vv := (replicate (nat (nout s1 + 1)) (replicate (nat (N s1)) 0))
                      [0 := map (c64 ?ar) (v0 s1)],
              tt := replicate (nat (nout s1 + 1)) 0\<rparr>"
  have a: "(case nsteps' of None \<Rightarrow> float_quot ?ar tend' dt' | Some m \<Rightarrow> Inr m) = Inr nst"
    using dt by (simp add: nst_def float_quot_def exact_sel split: option.splits)
  have b: "int_quot nst iout' = Inr nout'"
    using io by (simp add: int_quot_def nout'_def)
  have ic: "IC ?ar rnd None None False (newborn L' N' dx' dt' nst iout' nout') = Inr (None, s1)"
    unfolding s1_def using N by (intro IC_default_ok) simp
  have sel1: "nout s1 = nout'" "N s1 = N'" "v0 s1 = ?V"
    by (simp_all add: s1_def)
  have ts: "setup_timeseries ?ar None s1 = (None, s2)"
    unfolding s2_def using no N tr sel1
    by (intro setup_timeseries_ok) (simp_all add: nout'_def nst_def exact_sel)
  have sel2: "L s2 = L'" "N s2 = N'"
    by (simp_all add: s2_def s1_def)
  from setup_fourier_exact [of s2 F Fi] L sel2 obtain s3 where
    fo: "setup_fourier ?ar None s2 = Inr s3" and re: "list_all (\<lambda>p. Im p = 0) (l s3)"
    by auto
  from setup_fourier_None [OF fo] obtain xs ks ls where
    s3: "s3 = s2\<lparr>x := xs, k := ks, l := ls\<rparr>"
    and lk: "length (l s3) = length (k s3)"
      "length (k s3) = length (arange 0 (real_of_int (N s2) / 2) @ [0] @
                                arange (- (real_of_int (N s2) / 2) + 1) 0)"
    by blast
  have "N s3 = N'"
    by (simp add: s3 sel2)
  with lk length_wavenumbers [OF N] sel2 have len: "int (length (l s3)) = N s3"
    using N by simp
  have nz: "\<forall>p \<in> set (l s3). \<forall>q \<in> set (contour 16). complex_of_real (dt s3) * p + q \<noteq> 0"
    using re contour_clear_of_reals by (auto simp add: list_all_iff)
  from setup_etdrk4_result [OF len nz, of F Fi] obtain s where et: "setup_etdrk4 ?ar s3 = Inr s"
    by blast
  have "construct ?ar rnd L' N' dt' nsteps' tend' iout' = Inr s"
    unfolding construct_def a using N(1)
    by (simp add: ebind_def b dx'_def [symmetric] ic ts fo et)
  then show ?thesis ..
qed

text \<open>With an even number of points the arrays of the step all have \<open>N\<close> entries.\<close>

lemma construct_shaped:
  assumes "construct ar rnd L' N' dt' nsteps' tend' iout' = Inr s" "even N'"
    and tr: "int (length (fft ar (map (\<lambda>p. complex_of_real ((p - 0.5) * 0.01)) rnd))) = N'"
  shows "shaped (nat N') s \<and> vv s ! 0 = map (c64 ar) (v0 s)"
proof -
  from assms(1) obtain nst dx' nout' ret s1 s2 s3 where
    ic: "IC ar rnd None None False (newborn L' N' dx' dt' nst iout' nout') = Inr (ret, s1)"
    and ts: "setup_timeseries ar None s1 = (None, s2)"
    and fo: "setup_fourier ar None s2 = Inr s3"
    and et: "setup_etdrk4 ar s3 = Inr s"
    by (rule constructE)
  from construct_sound [OF assms(1)] have N: "0 < N'"
    by simp
  let ?V = "fft ar (map (\<lambda>p. complex_of_real ((p - 0.5) * 0.01)) rnd)"
  from IC_default [OF ic]
  have s1: "s1 = (newborn L' N' dx' dt' nst iout' nout')
               \<lparr>u0 := map (\<lambda>p. complex_of_real ((p - 0.5) * 0.01)) rnd,
                v0 := ?V, v := ?V, t := 0, stepnum := 0, ioutnum := 0\<rparr>"
    by simp
  from setup_timeseries_None [OF ts] obtain rows where
    s2: "s2 = s1\<lparr>vv := rows, tt := replicate (nat (nout s1 + 1)) 0\<rparr>"
    and rows: "set_row ar 0 (v0 s1) (replicate (nat (nout s1 + 1)) (replicate (nat (N s1)) 0)) = Inr rows"
    and no: "0 \<le> nout s1"
    by blast
  have sel1: "N s1 = N'" "v0 s1 = ?V"
    by (simp_all add: s1)
  have "set_row ar 0 (v0 s1) (replicate (nat (nout s1 + 1)) (replicate (nat (N s1)) 0))
      = Inr ((replicate (nat (nout s1 + 1)) (replicate (nat (N s1)) 0))[0 := map (c64 ar) (v0 s1)])"
    using no N tr sel1 by (intro set_row_fits) auto
  with rows no have row0: "rows ! 0 = map (c64 ar) ?V"
    using sel1 by auto
  from setup_fourier_None [OF fo] obtain xs ks ls where
    s3: "s3 = s2\<lparr>x := xs, k := ks, l := ls\<rparr>"
    and lk: "length (l s3) = length (k s3)"
      "length (k s3) = length (arange 0 (real_of_int (N s2) / 2) @ [0] @
                                arange (- (real_of_int (N s2) / 2) + 1) 0)"
    by blast
  have N3: "N s3 = N'" "N s2 = N'"
    by (simp_all add: s3 s2 s1)
  with lk length_wavenumbers [OF N assms(2)] have len: "int (length (l s3)) = N s3"
    "length (k s3) = length (l s3)" "length (l s3) = nat N'"
    using N by simp_all
  note lens = setup_etdrk4_lengths [OF et len(1,2)]
  note s = setup_etdrk4_frame [OF et]
  have f: "v s = ?V" "v0 s = ?V" "vv s = rows"
    by (subst s, simp add: s3 s2 s1)+
  show ?thesis
    using lens len(3) tr N row0 unfolding shaped_def f by simp
qed

text \<open>
  C4, as the claim states it, fails: a negative \<open>L\<close> is not rejected. With \<open>L = -16\<close>,
  two points and the default time step, end time and stride, the constructor
  returns a solver.
\<close>

theorem construct_negative_L_accepted:
  "\<not> isl (construct (exact dft idft) [1 / 2, 1 / 2] (- 16) 2 (1 / 4) None 150 1)"
proof -
  have "\<exists>s. construct (exact dft idft) [1 / 2, 1 / 2] (- 16) 2 (1 / 4) None 150 1 = Inr s"
    by (rule construct_ok) (simp_all add: py_int_def dft_def)
  then show ?thesis by auto
qed

text \<open>
  C4, amended. The constructor raises an error, and builds no solver, for every
  configuration with \<open>N \<le> 0\<close>, with \<open>L = 0\<close>, with \<open>dt = 0\<close> when \<open>nsteps\<close> is omitted, or
  with a negative number of samples \<^verbatim>\<open>int(nsteps/iout)\<close>, where an omitted \<open>nsteps\<close> is
  \<^verbatim>\<open>int(tend/dt)\<close>.
\<close>

theorem construct_rejects:
  assumes "N' \<le> 0 \<or> L' = 0 \<or> (nsteps' = None \<and> dt' = 0) \<or>
           (\<exists>nst. (case nsteps' of None \<Rightarrow> float_quot ar tend' dt' | Some m \<Rightarrow> Inr m) = Inr nst \<and>
                  py_int (real_of_int nst / real_of_int iout') < 0)"
  shows "isl (construct ar rnd L' N' dt' nsteps' tend' iout')"
proof (rule ccontr)
  assume "\<not> isl (construct ar rnd L' N' dt' nsteps' tend' iout')"
  then obtain s where s: "construct ar rnd L' N' dt' nsteps' tend' iout' = Inr s"
    by (cases "construct ar rnd L' N' dt' nsteps' tend' iout'") auto
  from s obtain nst dx' nout' ret s1 s2 s3 where
    "nsteps' = None \<longrightarrow> dt' \<noteq> 0"
    by (rule constructE)
  moreover from construct_sound [OF s] have "0 < N'" "L' \<noteq> 0" "buffers_ok s"
    "(case nsteps' of None \<Rightarrow> float_quot ar tend' dt' | Some m \<Rightarrow> Inr m) = Inr (nsteps s)"
    "nout s = py_int (real_of_int (nsteps s) / real_of_int iout')"
    by simp_all
  ultimately show False
    using assms by (auto simp add: buffers_ok_def)
qed

theorem construct_rejects_witness:
  "((0::int) \<le> 0 \<or> (16::real) = 0 \<or> ((None :: int option) = None \<and> (1 / 4 :: real) = 0) \<or>
    (\<exists>nst. (case (None :: int option) of None \<Rightarrow> float_quot (exact dft idft) 150 (1 / 4)
                                       | Some m \<Rightarrow> Inr m) = Inr nst \<and>
           py_int (real_of_int nst / real_of_int 1) < 0)) \<and>
   isl (construct (exact dft idft) [] 16 0 (1 / 4) None 150 1) \<and>
   isl (construct (exact dft idft) [1 / 2, 1 / 2] 0 2 (1 / 4) None 150 1) \<and>
   isl (construct (exact dft idft) [1 / 2, 1 / 2] 16 2 0 None 150 1) \<and>
   isl (construct (exact dft idft) [1 / 2, 1 / 2] 16 2 (1 / 4) (Some (- 5)) 150 1)"
  using construct_rejects [of 0 16 None "1 / 4" "exact dft idft" 150 1 "[]"]
    construct_rejects [of 2 0 None "1 / 4" "exact dft idft" 150 1 "[1 / 2, 1 / 2]"]
    construct_rejects [of 2 16 None 0 "exact dft idft" 150 1 "[1 / 2, 1 / 2]"]
    construct_rejects [of 2 16 "Some (- 5)" "1 / 4" "exact dft idft" 150 1 "[1 / 2, 1 / 2]"]
  by (simp add: py_int_def)

text \<open>
  C5. The constructor does not accept an output stride of zero: whatever the other
  arguments are, no solver is built. \<^verbatim>\<open>int(nsteps/iout)\<close>, or the division by \<open>dt = 0\<close>
  before it, raises \<^verbatim>\<open>ZeroDivisionError\<close>, unless \<open>nsteps\<close> is omitted and \<^verbatim>\<open>tend/dt\<close>
  is an infinity, which \<^verbatim>\<open>int\<close> has refused before with \<^verbatim>\<open>OverflowError\<close>.
\<close>

theorem construct_iout_zero:
  "construct ar rnd L' N' dt' nsteps' tend' 0 =
     Inl (if nsteps' = None \<and> dt' \<noteq> 0 \<and> pdiv ar tend' dt' = None then OverflowError
          else ZeroDivisionError)"
  by (simp add: construct_def ebind_def int_quot_def float_quot_def
      split: option.splits sum.splits)


subsection \<open>The body of the loops\<close>

lemma step_frame:
  assumes "step ar s = Inr s1"
  shows "\<exists>w. s1 = s\<lparr>v := w, stepnum := stepnum s + 1, t := t s + dt s\<rparr>"
  using assms unfolding step_def ebind_Inr_iff by (elim exE conjE) auto

lemma attempt_plain_frame:
  assumes "attempt_plain ar s = (res, s1)"
  shows "\<exists>w m c. s1 = s\<lparr>v := w, stepnum := m, t := c\<rparr>"
proof (cases "step ar s")
  case (Inl e)
  with assms have "s1 = s" by (simp add: attempt_plain_def)
  then have "s1 = s\<lparr>v := v s, stepnum := stepnum s, t := t s\<rparr>" by simp
  then show ?thesis by blast
next
  case (Inr s')
  from step_frame [OF Inr] obtain w where "s' = s\<lparr>v := w, stepnum := stepnum s + 1, t := t s + dt s\<rparr>"
    by blast
  with assms Inr show ?thesis by (auto simp add: attempt_plain_def)
qed

lemma attempt_corr_frame:
  assumes "attempt_corr ar c s = (res, s1)"
  shows "\<exists>w m c. s1 = s\<lparr>v := w, stepnum := m, t := c\<rparr>"
proof (cases "step ar s")
  case (Inl e)
  with assms have "s1 = s" by (simp add: attempt_corr_def)
  then have "s1 = s\<lparr>v := v s, stepnum := stepnum s, t := t s\<rparr>" by simp
  then show ?thesis by blast
next
  case (Inr s')
  from step_frame [OF Inr] obtain w where "s' = s\<lparr>v := w, stepnum := stepnum s + 1, t := t s + dt s\<rparr>"
    by blast
  then have "s'\<lparr>v := u\<rparr> = s\<lparr>v := u, stepnum := stepnum s + 1, t := t s + dt s\<rparr>" for u
    by simp
  moreover from assms Inr have "s1 = s'\<lparr>v := snd (iadd ar (v s') c)\<rparr>"
    by (simp add: attempt_corr_def split: prod.splits)
  ultimately show ?thesis
    by metis
qed

lemma attempt_frame:
  assumes "attempt ar c s = (res, s1)"
  shows "\<exists>w m c. s1 = s\<lparr>v := w, stepnum := m, t := c\<rparr>"
  using assms attempt_plain_frame attempt_corr_frame
  by (cases "c = []") (simp_all add: attempt_def)

lemma loop_plain_with: "loop_plain ar ns s = loop_with (attempt_plain ar) ar ns s"
  by (induction ns arbitrary: s)
    (auto simp add: attempt_plain_def except_def split: sum.splits prod.splits option.splits)

lemma loop_corr_with: "loop_corr ar c ns s = loop_with (attempt_corr ar c) ar ns s"
  by (induction ns arbitrary: s)
    (auto simp add: attempt_corr_def except_def split: sum.splits prod.splits option.splits)


lemma attempt_keeps:
  assumes "attempt ar c s = (res, s1)"
  shows "nout s1 = nout s \<and> iout s1 = iout s \<and> N s1 = N s \<and> nsteps s1 = nsteps s \<and>
         ioutnum s1 = ioutnum s \<and> vv s1 = vv s \<and> tt s1 = tt s \<and> uu s1 = uu s"
  using attempt_frame [OF assms] by auto

subsection \<open>Resizing\<close>

lemma length_resize1 [simp]: "length (resize1 m xs) = m"
  by (simp add: resize1_def)

lemma resize1_take: "m \<le> length xs \<Longrightarrow> resize1 m xs = take m xs"
  by (simp add: resize1_def)

lemma length_resize2 [simp]: "length (resize2 m n rows) = m"
  by (simp add: resize2_def)

lemma resize2_widths: "list_all (\<lambda>row. length row = n) (resize2 m n rows)"
proof -
  have "length (take n (drop (i * n) (resize1 (m * n) (concat rows)))) = n" if "i < m" for i
  proof -
    from that have "Suc i \<le> m" by simp
    then have "Suc i * n \<le> m * n" by (rule mult_le_mono1)
    then show ?thesis by simp
  qed
  then show ?thesis
    by (simp add: resize2_def list_all_iff)
qed

lemma row_of_concat:
  assumes "list_all (\<lambda>row. length row = n) rows" "i < length rows"
  shows "take n (drop (i * n) (concat rows)) = rows ! i"
  using assms
proof (induction rows arbitrary: i)
  case Nil
  then show ?case by simp
next
  case (Cons row rows)
  show ?case
  proof (cases i)
    case 0
    with Cons.prems show ?thesis by simp
  next
    case (Suc j)
    with Cons.prems have "take n (drop (j * n) (concat rows)) = rows ! j"
      by (intro Cons.IH) simp_all
    with Suc Cons.prems show ?thesis by simp
  qed
qed

lemma length_concat_rows:
  "list_all (\<lambda>row. length row = n) rows \<Longrightarrow> length (concat rows) = length rows * n"
  by (induction rows) simp_all

lemma resize2_take:
  assumes w: "list_all (\<lambda>row. length row = n) rows" and m: "m \<le> length rows"
  shows "resize2 m n rows = take m rows"
proof (rule nth_equalityI)
  show "length (resize2 m n rows) = length (take m rows)"
    using m by simp
next
  fix i assume "i < length (resize2 m n rows)"
  then have i: "i < m" by simp
  from m have "m * n \<le> length (concat rows)"
    by (simp add: length_concat_rows [OF w])
  then have "resize1 (m * n) (concat rows) = take (m * n) (concat rows)"
    by (rule resize1_take)
  moreover have "take n (drop (i * n) (take (m * n) (concat rows))) = take n (drop (i * n) (concat rows))"
  proof -
    from i have "Suc i \<le> m" by simp
    then have "Suc i * n \<le> m * n" by (rule mult_le_mono1)
    then have "n \<le> m * n - i * n" by simp
    then show ?thesis by (simp add: drop_take min_absorb1)
  qed
  ultimately show "resize2 m n rows ! i = take m rows ! i"
    using i m row_of_concat [OF w, of i] by (simp add: resize2_def)
qed

subsection \<open>The except clause\<close>

lemma except_fpe:
  assumes "0 \<le> N s"
  shows "except FloatingPointError s =
     (Inr (Some (- 1)),
      s\<lparr>nout := int (ioutnum s),
        vv := resize2 (ioutnum s + 1) (nat (N s)) (vv s),
        tt := resize1 (ioutnum s + 1) (tt s)\<rparr>)"
proof -
  have "nat (int (ioutnum s) + 1) = ioutnum s + 1" by simp
  with assms show ?thesis
    by (simp add: except_def Let_def)
qed

lemma except_other: "e \<noteq> FloatingPointError \<Longrightarrow> except e s = (Inl e, s)"
  by (simp add: except_def)

text \<open>What the except clause leaves, whatever was raised.\<close>

lemma except_keeps:
  assumes "except e s = (res, s')"
  shows "iout s' = iout s \<and> N s' = N s \<and> nsteps s' = nsteps s \<and> ioutnum s' = ioutnum s \<and>
         uu s' = uu s \<and> v s' = v s \<and> res \<noteq> Inr None"
  using assms by (auto simp add: except_def Let_def split: if_splits)

lemma except_buffers:
  assumes "except e s = (res, s')" "buffers_ok s" "0 \<le> N s"
  shows "buffers_ok s' \<and> length (vv s') \<le> length (vv s) \<and> length (tt s') \<le> length (tt s)"
proof (cases "e = FloatingPointError")
  case True
  with assms(1) except_fpe [OF assms(3)]
  have s': "s' = s\<lparr>nout := int (ioutnum s),
        vv := resize2 (ioutnum s + 1) (nat (N s)) (vv s),
        tt := resize1 (ioutnum s + 1) (tt s)\<rparr>"
    by simp
  from assms(2) have "ioutnum s + 1 \<le> length (vv s)" "ioutnum s + 1 \<le> length (tt s)"
    by (auto simp add: buffers_ok_def)
  then show ?thesis
    by (simp add: s' buffers_ok_def)
next
  case False
  with assms show ?thesis by (simp add: except_other)
qed

lemma except_rows:
  assumes "except e s = (res, s')" "buffers_ok s" "rect s"
  shows "rect s' \<and> vv s' = take (length (vv s')) (vv s) \<and> tt s' = take (length (tt s')) (tt s) \<and>
         ioutnum s < length (vv s')"
proof (cases "e = FloatingPointError")
  case True
  from assms(2) have le: "ioutnum s + 1 \<le> length (vv s)" "ioutnum s + 1 \<le> length (tt s)"
    by (auto simp add: buffers_ok_def)
  then have "vv s \<noteq> []" by auto
  with assms(3) have N: "0 \<le> N s"
    by (cases "vv s") (auto simp add: rect_def)
  from True assms(1) except_fpe [OF N]
  have s': "s' = s\<lparr>nout := int (ioutnum s),
        vv := resize2 (ioutnum s + 1) (nat (N s)) (vv s),
        tt := resize1 (ioutnum s + 1) (tt s)\<rparr>"
    by simp
  from assms(3) N have w: "list_all (\<lambda>row. length row = nat (N s)) (vv s)"
    by (auto simp add: rect_def list_all_iff)
  have vv: "vv s' = take (ioutnum s + 1) (vv s)" and tt: "tt s' = take (ioutnum s + 1) (tt s)"
    using resize2_take [OF w le(1)] resize1_take [OF le(2)] by (simp_all add: s')
  have "rect s'"
    using assms(3) unfolding rect_def vv list_all_iff
    by (auto simp add: s' dest: in_set_takeD)
  then show ?thesis
    using vv tt le by simp
next
  case False
  with assms(1) have "s' = s" by (simp add: except_other)
  with assms(2,3) show ?thesis by (auto simp add: buffers_ok_def)
qed

subsection \<open>Sampling\<close>

lemma record_sample_skip:
  "\<not> (0 < iout s \<and> n mod iout s = 0) \<Longrightarrow> record_sample ar n s = (None, s)"
  by (auto simp add: record_sample_def)

lemma record_sample_keeps:
  assumes "record_sample ar n s = (res, s2)"
  shows "nout s2 = nout s \<and> iout s2 = iout s \<and> N s2 = N s \<and> nsteps s2 = nsteps s \<and>
         uu s2 = uu s \<and> v s2 = v s \<and>
         length (vv s2) = length (vv s) \<and> length (tt s2) = length (tt s) \<and>
         ioutnum s2 = (if 0 < iout s \<and> n mod iout s = 0 then ioutnum s + 1 else ioutnum s)"
  using assms
  by (auto simp add: record_sample_def Let_def set_row_length
      split: if_splits sum.splits)

lemma record_sample_rect:
  assumes "record_sample ar n s = (res, s2)" "rect s"
  shows "rect s2"
  using assms set_row_widths [of ar "ioutnum s + 1" "v s" "vv s" _ "N s"]
  by (auto simp add: record_sample_def Let_def rect_def split: if_splits sum.splits)

lemma set_row_other:
  "set_row ar i w rows = Inr rows' \<Longrightarrow> j \<noteq> i \<Longrightarrow> rows' ! j = rows ! j"
  by (auto simp add: set_row_def split: if_splits)

lemma record_sample_rows:
  assumes "record_sample ar n s = (res, s2)" "j \<le> ioutnum s"
  shows "vv s2 ! j = vv s ! j"
  using assms set_row_other [of ar "ioutnum s + 1" "v s" "vv s" _ j]
  by (auto simp add: record_sample_def Let_def split: if_splits sum.splits)

lemma record_sample_room:
  assumes "record_sample ar n s = (res, s2)" "buffers_ok s" "room (n # ns) s"
  shows "buffers_ok s2 \<and> room ns s2 \<and> res \<noteq> Some IndexError"
proof (cases "0 < iout s \<and> n mod iout s = 0")
  case False
  with assms show ?thesis
    by (auto simp add: record_sample_skip room_def)
next
  case True
  with assms(3) have le: "int (ioutnum s) + 1 + int (length (filter (\<lambda>n. n mod iout s = 0) ns)) \<le> nout s"
    by (simp add: room_def)
  then have i: "int (ioutnum s) + 1 \<le> nout s" by simp
  with assms(2) have lt: "ioutnum s + 1 < length (vv s)" "ioutnum s + 1 < length (tt s)"
    by (auto simp add: buffers_ok_def)
  note k = record_sample_keeps [OF assms(1)]
  have "buffers_ok s2"
    using assms(2) k i True by (simp add: buffers_ok_def)
  moreover have "room ns s2"
    using k le True by (simp add: room_def)
  moreover have "res \<noteq> Some IndexError"
    using assms(1) lt True
    by (auto simp add: record_sample_def Let_def set_row_def split: if_splits sum.splits)
  ultimately show ?thesis by simp
qed

subsection \<open>Invariants of the loop\<close>

lemma buffers_ok_cong:
  "nout s1 = nout s \<Longrightarrow> ioutnum s1 = ioutnum s \<Longrightarrow> vv s1 = vv s \<Longrightarrow> tt s1 = tt s \<Longrightarrow>
   buffers_ok s1 = buffers_ok s"
  by (simp add: buffers_ok_def)

lemma room_cong:
  "nout s1 = nout s \<Longrightarrow> ioutnum s1 = ioutnum s \<Longrightarrow> iout s1 = iout s \<Longrightarrow> room ns s1 = room ns s"
  by (simp add: room_def)

lemma rect_cong: "N s1 = N s \<Longrightarrow> vv s1 = vv s \<Longrightarrow> rect s1 = rect s"
  by (simp add: rect_def)

lemma loop_buffers:
  assumes fr: "\<And>s res s1. body s = (res, s1) \<Longrightarrow>
      nout s1 = nout s \<and> iout s1 = iout s \<and> N s1 = N s \<and> nsteps s1 = nsteps s \<and>
      ioutnum s1 = ioutnum s \<and> vv s1 = vv s \<and> tt s1 = tt s \<and> uu s1 = uu s"
    and "buffers_ok s" "0 \<le> N s" "room ns s"
  shows "buffers_ok (snd (loop_with body ar ns s)) \<and>
         length (vv (snd (loop_with body ar ns s))) \<le> length (vv s) \<and>
         length (tt (snd (loop_with body ar ns s))) \<le> length (tt s)"
  using assms(2-)
proof (induction ns arbitrary: s)
  case Nil
  then show ?case by simp
next
  case (Cons n ns)
  obtain res s1 where b: "body s = (res, s1)"
    by (cases "body s")
  note k = fr [OF b]
  from k Cons.prems have s1: "buffers_ok s1" "0 \<le> N s1" "room (n # ns) s1"
    by (simp_all add: buffers_ok_cong [of s1 s] room_cong [of s1 s])
  show ?case
  proof (cases res)
    case (Some e)
    obtain r' s' where ex: "except e s1 = (r', s')"
      by (cases "except e s1")
    from except_buffers [OF ex s1(1,2)] k b Some ex show ?thesis
      by simp
  next
    case None
    obtain r2 s2 where rs: "record_sample ar n s1 = (r2, s2)"
      by (cases "record_sample ar n s1")
    note k2 = record_sample_keeps [OF rs]
    note r = record_sample_room [OF rs s1(1,3)]
    show ?thesis
    proof (cases r2)
      case (Some e)
      with b None rs r k k2 show ?thesis by simp
    next
      case None': None
      from r k2 s1 have "buffers_ok s2" "0 \<le> N s2" "room ns s2"
        by simp_all
      from Cons.IH [OF this] b None rs None' k k2 show ?thesis
        by simp
    qed
  qed
qed

lemma loop_rows:
  assumes fr: "\<And>s res s1. body s = (res, s1) \<Longrightarrow>
      nout s1 = nout s \<and> iout s1 = iout s \<and> N s1 = N s \<and> nsteps s1 = nsteps s \<and>
      ioutnum s1 = ioutnum s \<and> vv s1 = vv s \<and> tt s1 = tt s \<and> uu s1 = uu s"
    and "buffers_ok s" "rect s" "room ns s" "j \<le> ioutnum s"
  shows "vv (snd (loop_with body ar ns s)) ! j = vv s ! j \<and>
         j < length (vv (snd (loop_with body ar ns s)))"
  using assms(2-)
proof (induction ns arbitrary: s)
  case Nil
  then show ?case by (auto simp add: buffers_ok_def)
next
  case (Cons n ns)
  obtain res s1 where b: "body s = (res, s1)"
    by (cases "body s")
  note k = fr [OF b]
  from k Cons.prems have s1: "buffers_ok s1" "rect s1" "room (n # ns) s1" "j \<le> ioutnum s1"
    by (simp_all add: buffers_ok_cong [of s1 s] room_cong [of s1 s] rect_cong [of s1 s])
  show ?case
  proof (cases res)
    case (Some e)
    obtain r' s' where ex: "except e s1 = (r', s')"
      by (cases "except e s1")
    from except_rows [OF ex s1(1,2)] have "vv s' = take (length (vv s')) (vv s1)"
      "ioutnum s1 < length (vv s')"
      by simp_all
    with s1(4) have "vv s' ! j = vv s1 ! j" "j < length (vv s')"
      by (metis le_imp_less_Suc less_Suc_eq_le nth_take order.strict_trans1, simp)
    with k b Some ex show ?thesis
      by simp
  next
    case None
    obtain r2 s2 where rs: "record_sample ar n s1 = (r2, s2)"
      by (cases "record_sample ar n s1")
    note k2 = record_sample_keeps [OF rs]
    note r = record_sample_room [OF rs s1(1,3)]
    note row = record_sample_rows [OF rs s1(4)]
    show ?thesis
    proof (cases r2)
      case (Some e)
      from s1(1,4) k2 have "j < length (vv s2)"
        by (auto simp add: buffers_ok_def)
      with b None rs Some row k show ?thesis by simp
    next
      case None': None
      from r k2 s1 record_sample_rect [OF rs s1(2)]
      have "buffers_ok s2" "rect s2" "room ns s2" "j \<le> ioutnum s2"
        by simp_all
      from Cons.IH [OF this] b None rs None' k row show ?thesis
        by simp
    qed
  qed
qed

lemma loop_done:
  assumes fr: "\<And>s res s1. body s = (res, s1) \<Longrightarrow>
      nout s1 = nout s \<and> iout s1 = iout s \<and> N s1 = N s \<and> nsteps s1 = nsteps s \<and>
      ioutnum s1 = ioutnum s \<and> vv s1 = vv s \<and> tt s1 = tt s \<and> uu s1 = uu s"
    and "loop_with body ar ns s = (Inr None, s')"
  shows "nout s' = nout s \<and> iout s' = iout s \<and> N s' = N s \<and> nsteps s' = nsteps s \<and>
         length (vv s') = length (vv s) \<and> length (tt s') = length (tt s) \<and>
         (rect s \<longrightarrow> rect s') \<and>
         int (ioutnum s') = int (ioutnum s) +
           (if 0 < iout s then int (length (filter (\<lambda>n. n mod iout s = 0) ns)) else 0)"
  using assms(2)
proof (induction ns arbitrary: s)
  case Nil
  then show ?case by simp
next
  case (Cons n ns)
  obtain res s1 where b: "body s = (res, s1)"
    by (cases "body s")
  note k = fr [OF b]
  show ?case
  proof (cases res)
    case (Some e)
    obtain r' s'' where ex: "except e s1 = (r', s'')"
      by (cases "except e s1")
    with except_keeps [OF ex] Cons.prems b Some show ?thesis
      by simp
  next
    case None
    obtain r2 s2 where rs: "record_sample ar n s1 = (r2, s2)"
      by (cases "record_sample ar n s1")
    note k2 = record_sample_keeps [OF rs]
    show ?thesis
    proof (cases r2)
      case (Some e)
      with Cons.prems b None rs show ?thesis by simp
    next
      case None': None
      with Cons.prems b None rs have "loop_with body ar ns s2 = (Inr None, s')"
        by simp
      from Cons.IH [OF this] k k2 record_sample_rect [OF rs] show ?thesis
        by (auto simp add: rect_cong [of s1 s])
    qed
  qed
qed

lemma loop_append:
  "loop_with body ar (xs @ ys) s =
     (case loop_with body ar xs s of
        (Inr None, s1) \<Rightarrow> loop_with body ar ys s1
      | (res, s1) \<Rightarrow> (res, s1))"
proof (induction xs arbitrary: s)
  case Nil
  then show ?case by simp
next
  case (Cons n ns)
  obtain res s1 where b: "body s = (res, s1)"
    by (cases "body s")
  show ?case
  proof (cases res)
    case (Some e)
    obtain r' s'' where ex: "except e s1 = (r', s'')"
      by (cases "except e s1")
    from except_keeps [OF ex] have "r' \<noteq> Inr None" by simp
    with b Some ex show ?thesis
      by (auto split: sum.splits option.splits)
  next
    case None
    obtain r2 s2 where rs: "record_sample ar n s1 = (r2, s2)"
      by (cases "record_sample ar n s1")
    with b None Cons.IH show ?thesis
      by (cases r2) simp_all
  qed
qed

lemma loop_uu:
  assumes fr: "\<And>s res s1. body s = (res, s1) \<Longrightarrow>
      nout s1 = nout s \<and> iout s1 = iout s \<and> N s1 = N s \<and> nsteps s1 = nsteps s \<and>
      ioutnum s1 = ioutnum s \<and> vv s1 = vv s \<and> tt s1 = tt s \<and> uu s1 = uu s"
  shows "uu (snd (loop_with body ar ns s)) = uu s"
proof (induction ns arbitrary: s)
  case Nil
  then show ?case by simp
next
  case (Cons n ns)
  obtain res s1 where b: "body s = (res, s1)"
    by (cases "body s")
  note k = fr [OF b]
  show ?case
  proof (cases res)
    case (Some e)
    obtain r' s'' where ex: "except e s1 = (r', s'')"
      by (cases "except e s1")
    with except_keeps [OF ex] b Some k show ?thesis
      by simp
  next
    case None
    obtain r2 s2 where rs: "record_sample ar n s1 = (r2, s2)"
      by (cases "record_sample ar n s1")
    note k2 = record_sample_keeps [OF rs]
    from b None rs k k2 Cons.IH [of s2] show ?thesis
      by (cases r2) simp_all
  qed
qed


subsection \<open>The buffers during a run\<close>

lemma run_loop_with: "run_loop ar c ns s = loop_with (attempt ar c) ar ns s"
  by (simp add: run_loop_def attempt_def loop_plain_with loop_corr_with)

lemma room_prefix: "room (xs @ ys) s \<Longrightarrow> room xs s"
  by (auto simp add: room_def)

lemma upto_prefix:
  assumes "m \<le> n"
  shows "\<exists>ys. [1..n] = [1..m] @ ys"
proof (cases "1 \<le> m")
  case True
  with assms have "[1..n] = [1..m] @ [m + 1..n]"
    by (intro upto_split2) simp_all
  then show ?thesis ..
next
  case False
  then show ?thesis by simp
qed

lemma simulate_default:
  "simulate ar None None False c s =
     (case run_loop ar c [1..nsteps s] s of
        (Inr None, s4) \<Rightarrow> (Inr None, fou2real ar s4)
      | (res, s4) \<Rightarrow> (res, s4))"
  by (simp add: simulate_def)

lemma fou2real_buffers [simp]:
  "buffers_ok (fou2real ar s) = buffers_ok s" "vv (fou2real ar s) = vv s"
  "tt (fou2real ar s) = tt s" "nout (fou2real ar s) = nout s"
  "ioutnum (fou2real ar s) = ioutnum s"
  by (simp_all add: fou2real_def buffers_ok_def)

text \<open>Three steps of the solver \<open>demo\<close>, whose buffers hold two samples, in exact arithmetic.\<close>

lemma demo_three_steps:
  "simulate (exact dft idft) (Some 3) None False [] demo =
     (Inl IndexError,
      demo\<lparr>nsteps := 3, v := [54 - 351 * \<i> / 2], t := 3 / 4, stepnum := 3, ioutnum := 3,
           vv := [[2], [6 - 3 * \<i> / 2], [18 - 18 * \<i>]], tt := [0, 1 / 4, 1 / 2]\<rparr>)"
  by (simp add: simulate_def run_loop_def upto_rec1 step_def nonlin_def ebind_def mul_def
      add_def sub_def ufunc_def broadcast_def square_def np_real_def scalar_def reals_def
      Let_def dft_single idft_single record_sample_def set_row_def except_def exact_sel
      exact_def demo_def)

lemma demo_first_run:
  "simulate (exact dft idft) None None False [] demo =
     (Inr None,
      demo\<lparr>v := [18 - 18 * \<i>], t := 1 / 2, stepnum := 2, ioutnum := 2,
           vv := [[2], [6 - 3 * \<i> / 2], [18 - 18 * \<i>]], tt := [0, 1 / 4, 1 / 2],
           uu := Some [[2], [6], [18]]\<rparr>)"
  by (simp add: simulate_def run_loop_def upto_rec1 step_def nonlin_def ebind_def mul_def
      add_def sub_def ufunc_def broadcast_def square_def np_real_def scalar_def reals_def
      Let_def dft_single idft_single record_sample_def set_row_def except_def exact_sel
      exact_def demo_def fou2real_def)

lemma demo_second_run:
  "simulate (exact dft idft) None None False []
     (demo\<lparr>v := [18 - 18 * \<i>], t := 1 / 2, stepnum := 2, ioutnum := 2,
           vv := [[2], [6 - 3 * \<i> / 2], [18 - 18 * \<i>]], tt := [0, 1 / 4, 1 / 2],
           uu := Some [[2], [6], [18]]\<rparr>) =
     (Inl IndexError,
      demo\<lparr>v := [54 - 351 * \<i> / 2], t := 3 / 4, stepnum := 3, ioutnum := 3,
           vv := [[2], [6 - 3 * \<i> / 2], [18 - 18 * \<i>]], tt := [0, 1 / 4, 1 / 2],
           uu := Some [[2], [6], [18]]\<rparr>)"
  by (simp add: simulate_def run_loop_def upto_rec1 step_def nonlin_def ebind_def mul_def
      add_def sub_def ufunc_def broadcast_def square_def np_real_def scalar_def reals_def
      Let_def dft_single idft_single record_sample_def set_row_def except_def exact_sel
      exact_def demo_def fou2real_def)

text \<open>
  C6, as the claim states it, fails: the invariant does not hold at every point of
  every run. The solver \<open>demo\<close> has buffers in order, with \<open>nout = 2\<close>. Its run
  \<^verbatim>\<open>simulate(nsteps=3)\<close> increments \<open>ioutnum\<close> to 3 at the third sample, one more than
  \<open>nout\<close>, and the assignment to \<^verbatim>\<open>self.vv[3,:]\<close> raises \<^verbatim>\<open>IndexError\<close>. So does a second
  \<^verbatim>\<open>simulate()\<close> after a first one that ran to its end, at its first sample.
\<close>

theorem simulate_overruns_buffers:
  "buffers_ok demo \<and>
   fst (simulate (exact dft idft) (Some 3) None False [] demo) = Inl IndexError \<and>
   ioutnum (snd (simulate (exact dft idft) (Some 3) None False [] demo)) = 3 \<and>
   nout (snd (simulate (exact dft idft) (Some 3) None False [] demo)) = 2 \<and>
   \<not> buffers_ok (snd (simulate (exact dft idft) (Some 3) None False [] demo)) \<and>
   fst (simulate (exact dft idft) None None False [] demo) = Inr None \<and>
   fst (simulate (exact dft idft) None None False []
          (snd (simulate (exact dft idft) None None False [] demo))) = Inl IndexError \<and>
   \<not> buffers_ok (snd (simulate (exact dft idft) None None False []
                       (snd (simulate (exact dft idft) None None False [] demo))))"
  unfolding demo_three_steps demo_first_run snd_conv demo_second_run
  by (simp add: buffers_ok_def demo_def)

text \<open>
  C6, amended. A run of \<^verbatim>\<open>simulate()\<close> with its default arguments, with or without a
  correction, that starts from buffers satisfying the invariant (\<open>vv\<close> and \<open>tt\<close> have
  \<open>nout + 1\<close> entries and \<open>ioutnum \<le> nout\<close>) with room for the samples of the run (when
  \<open>iout > 0\<close>, \<open>ioutnum\<close> plus the number of multiples of \<open>iout\<close> among \<open>1, \<dots>, nsteps\<close> is
  at most \<open>nout\<close>), on a solver with \<open>N \<ge> 0\<close>, keeps the invariant: it holds after every
  iteration of either loop
  (the object after the first \<open>m\<close> iterations, for every \<open>m\<close> up to \<open>nsteps\<close>), whether
  the iteration sampled, raised or was cut off by the except clause, and at the end
  of \<open>simulate\<close>; and the buffers never get longer than they were.
\<close>

theorem buffers_invariant:
  assumes "buffers_ok s" "0 \<le> N s" "room [1..nsteps s] s" "m \<le> nsteps s"
  shows "buffers_ok (snd (run_loop ar c [1..m] s)) \<and>
         length (vv (snd (run_loop ar c [1..m] s))) \<le> length (vv s) \<and>
         length (tt (snd (run_loop ar c [1..m] s))) \<le> length (tt s) \<and>
         buffers_ok (snd (simulate ar None None False c s)) \<and>
         length (vv (snd (simulate ar None None False c s))) \<le> length (vv s) \<and>
         length (tt (snd (simulate ar None None False c s))) \<le> length (tt s)"
proof -
  from upto_prefix [OF assms(4)] assms(3) have r: "room [1..m] s"
    by (auto dest: room_prefix)
  have a: "buffers_ok (snd (run_loop ar c ns s)) \<and>
         length (vv (snd (run_loop ar c ns s))) \<le> length (vv s) \<and>
         length (tt (snd (run_loop ar c ns s))) \<le> length (tt s)" if "room ns s" for ns
    unfolding run_loop_with
    using attempt_keeps assms(1,2) that by (rule loop_buffers)
  have b: "buffers_ok (snd (simulate ar None None False c s)) \<and>
         length (vv (snd (simulate ar None None False c s))) \<le> length (vv s) \<and>
         length (tt (snd (simulate ar None None False c s))) \<le> length (tt s)"
    using a [OF assms(3)] unfolding simulate_default
    by (auto split: prod.splits sum.splits option.splits)
  from a [OF r] b show ?thesis by simp
qed


lemma count_multiples:
  assumes "0 < d" "0 \<le> m"
  shows "int (length (filter (\<lambda>n. n mod d = 0) [1..m])) = m div d"
  using assms(2)
proof (induction m rule: int_ge_induct)
  case base
  then show ?case by simp
next
  case (step i)
  have up: "[1..i + 1] = [1..i] @ [i + 1]"
    using step.hyps by (simp add: upto_rec2)
  show ?case
  proof (cases "(i + 1) mod d = 0")
    case True
    then obtain q where q: "i + 1 = d * q"
      by (auto simp add: mod_eq_0_iff_dvd)
    then have "i = (q - 1) * d + (d - 1)"
      by (simp add: algebra_simps)
    then have "i div d = q - 1"
      using assms(1) by (metis add.commute diff_add_cancel div_mult_self1 div_pos_pos_trivial
          less_add_one less_le_not_le mult.commute not_less zle_diff1_eq add_0)
    moreover have "(i + 1) div d = q"
      using q assms(1) by simp
    ultimately show ?thesis
      using step.IH True up by simp
  next
    case False
    have "(i + 1) div d = i div d"
    proof -
      have "i mod d + 1 < d"
      proof (rule ccontr)
        assume "\<not> i mod d + 1 < d"
        moreover have "i mod d < d" using assms(1) by simp
        ultimately have "i mod d = d - 1" by simp
        then have "(i + 1) mod d = 0"
          by (metis diff_add_cancel mod_add_left_eq mod_self)
        with False show False by simp
      qed
      moreover have "0 \<le> i mod d + 1" using assms(1) by (simp add: add_nonneg_nonneg)
      ultimately have "(i mod d + 1) div d = 0"
        by (simp add: div_pos_pos_trivial)
      moreover have "i + 1 = d * (i div d) + (i mod d + 1)"
        by simp
      ultimately show ?thesis
        by (metis add.right_neutral div_mult_self2 assms(1) less_irrefl add.commute)
    qed
    with step.IH False up show ?thesis by simp
  qed
qed

lemma py_int_quotient:
  assumes "0 \<le> a" "0 < d"
  shows "py_int (real_of_int a / real_of_int d) = a div d"
  using assms by (simp add: py_int_def floor_divide_of_int_eq)

text \<open>A solver fresh from the constructor has room for every sample of its run.\<close>

lemma construct_room:
  assumes "construct ar rnd L' N' dt' nsteps' tend' iout' = Inr s"
  shows "buffers_ok s \<and> 0 \<le> N s \<and> room [1..nsteps s] s"
proof -
  note c = construct_sound [OF assms]
  have "room [1..nsteps s] s"
  proof (cases "0 < iout s \<and> 0 \<le> nsteps s")
    case True
    with c count_multiples [of "iout s" "nsteps s"] py_int_quotient [of "nsteps s" "iout s"]
    show ?thesis by (simp add: room_def)
  next
    case False
    with c show ?thesis by (auto simp add: room_def buffers_ok_def)
  qed
  with c show ?thesis by simp
qed

theorem buffers_invariant_witness:
  "buffers_ok demo \<and> 0 \<le> N demo \<and> room [1..nsteps demo] demo \<and> (1::int) \<le> nsteps demo \<and>
   buffers_ok (snd (run_loop (bounded 30) [] [1..1] demo)) \<and>
   length (vv (snd (run_loop (bounded 30) [] [1..1] demo))) \<le> length (vv demo) \<and>
   buffers_ok (snd (simulate (bounded 30) None None False [] demo)) \<and>
   length (vv (snd (simulate (bounded 30) None None False [] demo))) \<le> length (vv demo) \<and>
   length (tt (snd (simulate (bounded 30) None None False [] demo))) \<le> length (tt demo)"
proof -
  have a: "buffers_ok demo" and b: "0 \<le> N demo" and c: "room [1..nsteps demo] demo"
    and d: "(1::int) \<le> nsteps demo"
    by (simp_all add: buffers_ok_def room_def demo_def upto_rec1)
  from buffers_invariant [OF a b c d, of "bounded 30" "[]"] a b c d show ?thesis
    by simp
qed

subsection \<open>Divergence\<close>

text \<open>
  C3. When the loop has run its first iterations without incident and the body of
  the \<^verbatim>\<open>try\<close> block (the step, or the step and the accumulation of the correction)
  then raises \<^verbatim>\<open>FloatingPointError\<close>, \<open>simulate\<close> stops there: it raises nothing,
  returns \<open>-1\<close>, sets \<open>nout\<close> to \<open>ioutnum\<close>, and leaves \<open>vv\<close> and \<open>tt\<close> with exactly
  \<open>ioutnum + 1\<close> entries, which are the initial condition and the samples recorded
  so far when the buffers were in order.
\<close>

theorem divergence_aborts:
  assumes split: "[1..nsteps s] = pre @ n # post"
    and before: "run_loop ar c pre s = (Inr None, s1)"
    and raised: "attempt ar c s1 = (Some FloatingPointError, s2)"
    and N: "0 \<le> N s"
  shows "simulate ar None None False c s =
           (Inr (Some (- 1)),
            s2\<lparr>nout := int (ioutnum s1),
               vv := resize2 (ioutnum s1 + 1) (nat (N s)) (vv s1),
               tt := resize1 (ioutnum s1 + 1) (tt s1)\<rparr>) \<and>
         nout (snd (simulate ar None None False c s)) = int (ioutnum s1) \<and>
         ioutnum (snd (simulate ar None None False c s)) = ioutnum s1 \<and>
         length (vv (snd (simulate ar None None False c s))) = ioutnum s1 + 1 \<and>
         length (tt (snd (simulate ar None None False c s))) = ioutnum s1 + 1 \<and>
         (rect s1 \<and> buffers_ok s1 \<longrightarrow>
            vv (snd (simulate ar None None False c s)) = take (ioutnum s1 + 1) (vv s1) \<and>
            tt (snd (simulate ar None None False c s)) = take (ioutnum s1 + 1) (tt s1))"
proof -
  let ?s' = "s2\<lparr>nout := int (ioutnum s1),
               vv := resize2 (ioutnum s1 + 1) (nat (N s)) (vv s1),
               tt := resize1 (ioutnum s1 + 1) (tt s1)\<rparr>"
  from before have b: "loop_with (attempt ar c) ar pre s = (Inr None, s1)"
    by (simp add: run_loop_with)
  from loop_done [of "attempt ar c", OF attempt_keeps b] have N1: "N s1 = N s"
    by simp
  note k = attempt_keeps [OF raised]
  from k N1 N have N2: "0 \<le> N s2" by simp
  have "run_loop ar c [1..nsteps s] s = loop_with (attempt ar c) ar (n # post) s1"
    unfolding run_loop_with split loop_append b by simp
  also have "\<dots> = except FloatingPointError s2"
    using raised by simp
  also have "\<dots> = (Inr (Some (- 1)), ?s')"
    using except_fpe [OF N2] k N1 by simp
  finally have sim: "simulate ar None None False c s = (Inr (Some (- 1)), ?s')"
    by (simp add: simulate_default)
  have tk: "vv ?s' = take (ioutnum s1 + 1) (vv s1) \<and> tt ?s' = take (ioutnum s1 + 1) (tt s1)"
    if "rect s1" "buffers_ok s1"
  proof -
    from that(2) have le: "ioutnum s1 + 1 \<le> length (vv s1)" "ioutnum s1 + 1 \<le> length (tt s1)"
      by (auto simp add: buffers_ok_def)
    from that(1) N N1 have w: "list_all (\<lambda>row. length row = nat (N s)) (vv s1)"
      by (auto simp add: rect_def list_all_iff)
    from resize2_take [OF w le(1)] resize1_take [OF le(2)] show ?thesis
      by simp
  qed
  show ?thesis
    unfolding sim using tk k by simp
qed

text \<open>The run of the solver \<open>demo\<close>: one good step, then an overflow.\<close>

lemmas eval_defs = step_def nonlin_def ebind_def mul_def add_def sub_def ufunc_def
  broadcast_def square_def np_real_def scalar_def reals_def Let_def dft_single idft_single
  record_sample_def set_row_def attempt_def attempt_plain_def except_def
  resize1_def resize2_def fou2real_def

lemma bounded_sel:
  "fadd (bounded B) = (\<lambda>p q. (p + q, B < \<bar>Re (p + q)\<bar> \<or> B < \<bar>Im (p + q)\<bar>))"
  "fsub (bounded B) = (\<lambda>p q. (p - q, B < \<bar>Re (p - q)\<bar> \<or> B < \<bar>Im (p - q)\<bar>))"
  "fmul (bounded B) = (\<lambda>p q. (p * q, B < \<bar>Re (p * q)\<bar> \<or> B < \<bar>Im (p * q)\<bar>))"
  "fft (bounded B) = dft" "ifft (bounded B) = idft"
  "c64 (bounded B) = (\<lambda>z. Complex (of_int \<lfloor>Re z\<rfloor>) (of_int \<lfloor>Im z\<rfloor>))"
  by (simp_all add: bounded_def Let_def)

lemma demo_step1:
  "step (bounded 30) demo = Inr (demo\<lparr>v := [6 - 3 * \<i> / 2], stepnum := 1, t := 1 / 4\<rparr>)"
  by (simp add: eval_defs bounded_sel demo_def)

lemma demo_loop1: "run_loop (bounded 30) [] [1] demo = (Inr None, demo1)"
  by (simp add: run_loop_def demo_step1) (simp add: eval_defs bounded_sel demo_def demo1_def)

lemma demo_blow: "attempt (bounded 30) [] demo1 = (Some FloatingPointError, demo1)"
  by (simp add: eval_defs bounded_sel demo_def demo1_def)

lemma demo_upto: "[1..nsteps demo] = [1] @ 2 # []"
  by (simp add: demo_def upto_rec1)

theorem divergence_aborts_witness:
  "[1..nsteps demo] = [1] @ 2 # [] \<and>
   run_loop (bounded 30) [] [1] demo = (Inr None, demo1) \<and>
   attempt (bounded 30) [] demo1 = (Some FloatingPointError, demo1) \<and> 0 \<le> N demo \<and>
   rect demo1 \<and> buffers_ok demo1 \<and>
   simulate (bounded 30) None None False [] demo =
     (Inr (Some (- 1)), demo1\<lparr>nout := 1, vv := [[2], [Complex 6 (- 2)]], tt := [0, 1 / 4]\<rparr>)"
proof -
  have N: "0 \<le> N demo"
    by (simp add: demo_def)
  have r: "rect demo1" "buffers_ok demo1"
    by (simp_all add: rect_def buffers_ok_def demo1_def demo_def)
  have e: "resize2 (ioutnum demo1 + 1) (nat (N demo)) (vv demo1) = [[2], [Complex 6 (- 2)]]"
    "resize1 (ioutnum demo1 + 1) (tt demo1) = [0, 1 / 4]" "int (ioutnum demo1) = 1"
    by (simp_all add: demo1_def demo_def resize2_def resize1_def upt_rec)
  from divergence_aborts [OF demo_upto demo_loop1 demo_blow N] show ?thesis
    unfolding e using demo_upto demo_loop1 demo_blow N r by simp
qed

text \<open>
  What \<open>simulate\<close> does to \<open>uu\<close>: a run that completes stores the real parts of the
  row-wise inverse transform of \<open>vv\<close>; any other run leaves \<open>uu\<close> as it found it.
\<close>

lemma simulate_uu:
  "uu (snd (simulate ar None None False c s)) =
     (if fst (simulate ar None None False c s) = Inr None
      then Some (map (\<lambda>row. map Re (ifft ar row)) (vv (snd (simulate ar None None False c s))))
      else uu s)"
proof -
  obtain res s4 where l: "run_loop ar c [1..nsteps s] s = (res, s4)"
    by (cases "run_loop ar c [1..nsteps s] s")
  from loop_uu [of "attempt ar c" ar "[1..nsteps s]" s, OF attempt_keeps] l
  have "uu s4 = uu s"
    by (simp add: run_loop_with)
  with l show ?thesis
    unfolding simulate_default
    by (auto simp add: fou2real_def split: sum.splits option.splits)
qed

text \<open>
  C9 fails for a run that diverges: \<open>simulate\<close> returns from inside the except
  clause, before \<^verbatim>\<open>fou2real\<close>. The run of \<open>demo\<close> that overflows in its second step
  ends with two recorded rows and no \<open>uu\<close> at all, where the claim asks for the
  real parts of their inverse transforms.
\<close>

theorem diverged_run_without_uu:
  "simulate (bounded 30) None None False [] demo =
     (Inr (Some (- 1)), demo1\<lparr>nout := 1, vv := [[2], [Complex 6 (- 2)]], tt := [0, 1 / 4]\<rparr>) \<and>
   uu (snd (simulate (bounded 30) None None False [] demo)) = None \<and>
   map (\<lambda>row. map Re (ifft (bounded 30) row))
     (vv (snd (simulate (bounded 30) None None False [] demo))) = [[2], [6]]"
proof -
  have l1: "loop_with (attempt (bounded 30) []) (bounded 30) [1] demo = (Inr None, demo1)"
    using demo_loop1 by (simp add: run_loop_with)
  have ex: "except FloatingPointError demo1 =
      (Inr (Some (- 1)), demo1\<lparr>nout := 1, vv := [[2], [Complex 6 (- 2)]], tt := [0, 1 / 4]\<rparr>)"
    by (simp add: except_def demo1_def demo_def resize2_def resize1_def upt_rec Let_def)
  have "run_loop (bounded 30) [] [1..nsteps demo] demo =
      loop_with (attempt (bounded 30) []) (bounded 30) [2] demo1"
    unfolding run_loop_with demo_upto loop_append l1 by simp
  then have "run_loop (bounded 30) [] [1..nsteps demo] demo =
      (Inr (Some (- 1)), demo1\<lparr>nout := 1, vv := [[2], [Complex 6 (- 2)]], tt := [0, 1 / 4]\<rparr>)"
    by (simp add: demo_blow ex)
  then have sim: "simulate (bounded 30) None None False [] demo =
      (Inr (Some (- 1)), demo1\<lparr>nout := 1, vv := [[2], [Complex 6 (- 2)]], tt := [0, 1 / 4]\<rparr>)"
    by (simp add: simulate_def)
  show ?thesis
    unfolding sim by (simp add: demo1_def demo_def bounded_sel idft_single)
qed


subsection \<open>What the samples hold\<close>

lemma setup_timeseries_done:
  assumes "setup_timeseries ar nout' s' = (None, s)"
  shows "\<exists>m rows. s = s'\<lparr>nout := m, vv := rows, tt := replicate (nat (m + 1)) 0\<rparr> \<and>
           set_row ar 0 (v0 s') (replicate (nat (m + 1)) (replicate (nat (N s')) 0)) = Inr rows \<and>
           0 \<le> m \<and> 0 \<le> N s'"
proof -
  define s1 where "s1 = (case nout' of None \<Rightarrow> s' | Some m \<Rightarrow> s'\<lparr>nout := m\<rparr>)"
  have s1: "s1 = s'\<lparr>nout := nout s1\<rparr>" "N s1 = N s'" "v0 s1 = v0 s'"
    by (simp_all add: s1_def split: option.splits)
  from assms have neg: "\<not> (nout s1 + 1 < 0 \<or> N s1 < 0)"
    by (auto simp add: setup_timeseries_def s1_def [symmetric] split: if_splits)
  with assms obtain rows where
    rows: "set_row ar 0 (v0 s1) (replicate (nat (nout s1 + 1)) (replicate (nat (N s1)) 0)) = Inr rows"
    and s: "s = s1\<lparr>vv := rows, tt := (replicate (nat (nout s1 + 1)) 0)[0 := 0]\<rparr>"
    by (auto simp add: setup_timeseries_def s1_def [symmetric] Let_def split: sum.splits)
  from rows have "0 < nat (nout s1 + 1)"
    by (auto simp add: set_row_def split: if_splits)
  then have m: "0 \<le> nout s1" by simp
  have "(replicate m (0::real))[0 := 0] = replicate m 0" for m
    by (cases m) simp_all
  with s have "s = s1\<lparr>vv := rows, tt := replicate (nat (nout s1 + 1)) 0\<rparr>"
    by simp
  then have "s = s'\<lparr>nout := nout s1, vv := rows, tt := replicate (nat (nout s1 + 1)) 0\<rparr>"
    by (subst (asm) s1(1)) simp
  with rows m neg s1(2,3) show ?thesis
    by auto
qed

lemma setup_timeseries_fresh:
  assumes ts: "setup_timeseries ar nout' s' = (None, s)"
    and len0: "int (length (v0 s')) = N s'" and i0: "ioutnum s' = 0"
  shows "buffers_ok s \<and> rect s \<and> vv s ! 0 = map (c64 ar) (v0 s') \<and> ioutnum s = 0"
proof -
  from setup_timeseries_done [OF ts] obtain m rows where
    s: "s = s'\<lparr>nout := m, vv := rows, tt := replicate (nat (m + 1)) 0\<rparr>"
    and rows: "set_row ar 0 (v0 s') (replicate (nat (m + 1)) (replicate (nat (N s')) 0)) = Inr rows"
    and m: "0 \<le> m" "0 \<le> N s'"
    by blast
  have len: "length rows = nat (m + 1)"
    using set_row_length [OF rows] by simp
  have wid: "list_all (\<lambda>row. int (length row) = N s') rows"
    using set_row_widths [OF rows, of "N s'"] m by (simp add: list_all_iff)
  have "set_row ar 0 (v0 s') (replicate (nat (m + 1)) (replicate (nat (N s')) 0))
      = Inr ((replicate (nat (m + 1)) (replicate (nat (N s')) 0))[0 := map (c64 ar) (v0 s')])"
    using m len0 by (intro set_row_fits) auto
  with rows m have row0: "rows ! 0 = map (c64 ar) (v0 s')"
    by auto
  show ?thesis
    using len wid row0 m i0 by (simp add: s buffers_ok_def rect_def)
qed

lemma record_sample_ok:
  assumes "buffers_ok s" "rect s" "room (n # ns) s" "0 < iout s" "n mod iout s = 0"
    and "int (length (v s)) = N s"
  shows "\<exists>s2. record_sample ar n s = (None, s2) \<and>
           vv s2 ! (ioutnum s + 1) = map (c64 ar) (v s) \<and> ioutnum s2 = ioutnum s + 1"
proof -
  from assms(3,4,5) have "int (ioutnum s) + 1 \<le> nout s"
    by (simp add: room_def)
  with assms(1) have lt: "ioutnum s + 1 < length (vv s)" "ioutnum s + 1 < length (tt s)"
    by (auto simp add: buffers_ok_def)
  from assms(2) lt(1) have "int (length (vv s ! (ioutnum s + 1))) = N s"
    unfolding rect_def list_all_length by blast
  with assms(6) have w: "length (v s) = length (vv s ! (ioutnum s + 1))"
    by simp
  from lt w assms(4,5) show ?thesis
    by (simp add: record_sample_def set_row_def Let_def)
qed

text \<open>
  C10. Every row of \<open>vv\<close> that holds a snapshot is the single-precision conversion
  of the vector it was taken from: \<open>setup_timeseries\<close> stores the conversion of the
  initial condition \<open>v0\<close> in row 0, the sampling of an iteration stores the
  conversion of the state \<open>v\<close> as the body of the loop left it, and both rows are
  still there when the loop is over, however it ends. The conversion is any
  function here; where it is not the identity the row differs from the state, as
  in the run of \<open>demo\<close>.
\<close>

theorem samples_single_precision:
  assumes ts: "setup_timeseries ar nout' s' = (None, s)"
    and len0: "int (length (v0 s')) = N s'" and i0: "ioutnum s' = 0"
    and room: "room (pre @ n # post) s"
    and before: "run_loop ar c pre s = (Inr None, s0)"
    and body: "attempt ar c s0 = (None, s1)"
    and smp: "0 < iout s" "n mod iout s = 0"
    and len: "int (length (v s1)) = N s"
  shows "vv s ! 0 = map (c64 ar) (v0 s') \<and>
         vv (snd (run_loop ar c (pre @ n # post) s)) ! 0 = map (c64 ar) (v0 s') \<and>
         vv (snd (run_loop ar c (pre @ n # post) s)) ! (ioutnum s0 + 1) = map (c64 ar) (v s1)"
proof -
  let ?loop = "loop_with (attempt ar c) ar"
  note fr = attempt_keeps
  from setup_timeseries_fresh [OF ts len0 i0]
  have s: "buffers_ok s" "rect s" "vv s ! 0 = map (c64 ar) (v0 s')"
    by simp_all
  from before have b: "?loop pre s = (Inr None, s0)"
    by (simp add: run_loop_with)
  note d = loop_done [of "attempt ar c", OF fr b]
  from loop_rows [of "attempt ar c" s pre 0 ar, OF fr s(1,2) room_prefix [OF room]] b
  have row0: "vv s0 ! 0 = vv s ! 0"
    by simp
  from d s room smp have s0: "buffers_ok s0" "rect s0" "room (n # post) s0"
    by (simp_all add: buffers_ok_def room_def)
  note k = fr [OF body]
  from k s0 have s1: "buffers_ok s1" "rect s1" "room (n # post) s1"
    by (simp_all add: buffers_ok_cong [of s1 s0] room_cong [of s1 s0] rect_cong [of s1 s0])
  from k d smp len have "0 < iout s1" "n mod iout s1 = 0" "int (length (v s1)) = N s1"
    by simp_all
  from record_sample_ok [OF s1 this] obtain s2 where
    rs: "record_sample ar n s1 = (None, s2)"
    and row: "vv s2 ! (ioutnum s1 + 1) = map (c64 ar) (v s1)"
    and i2: "ioutnum s2 = ioutnum s1 + 1"
    by blast
  from record_sample_room [OF rs s1(1,3)] record_sample_rect [OF rs s1(2)]
  have s2: "buffers_ok s2" "rect s2" "room post s2"
    by simp_all
  have fin: "run_loop ar c (pre @ n # post) s = ?loop post s2"
    unfolding run_loop_with loop_append b by (simp add: body rs)
  from loop_rows [of "attempt ar c" s2 post 0 ar, OF fr s2]
    record_sample_rows [OF rs, of 0] k row0 s(3)
  have r0: "vv (snd (?loop post s2)) ! 0 = map (c64 ar) (v0 s')"
    by simp
  from loop_rows [of "attempt ar c" s2 post "ioutnum s1 + 1" ar, OF fr s2] i2 row k
  have rj: "vv (snd (?loop post s2)) ! (ioutnum s0 + 1) = map (c64 ar) (v s1)"
    by simp
  show ?thesis
    unfolding fin using s(3) r0 rj by simp
qed

lemma demo_setup:
  "setup_timeseries (bounded 30) None (demo\<lparr>vv := [], tt := []\<rparr>) = (None, demo)"
  by (simp add: setup_timeseries_def set_row_def demo_def bounded_sel Let_def numeral_3_eq_3
      complex_eq_iff)

lemma demo_attempt:
  "attempt (bounded 30) [] demo = (None, demo\<lparr>v := [6 - 3 * \<i> / 2], stepnum := 1, t := 1 / 4\<rparr>)"
  by (simp add: attempt_def attempt_plain_def demo_step1)

theorem samples_single_precision_witness:
  "setup_timeseries (bounded 30) None (demo\<lparr>vv := [], tt := []\<rparr>) = (None, demo) \<and>
   int (length (v0 (demo\<lparr>vv := [], tt := []\<rparr>))) = N (demo\<lparr>vv := [], tt := []\<rparr>) \<and>
   ioutnum (demo\<lparr>vv := [], tt := []\<rparr>) = 0 \<and>
   room ([] @ 1 # [2]) demo \<and>
   run_loop (bounded 30) [] [] demo = (Inr None, demo) \<and>
   attempt (bounded 30) [] demo =
     (None, demo\<lparr>v := [6 - 3 * \<i> / 2], stepnum := 1, t := 1 / 4\<rparr>) \<and>
   0 < iout demo \<and> 1 mod iout demo = 0 \<and>
   vv (snd (run_loop (bounded 30) [] ([] @ 1 # [2]) demo)) ! 0 = [2] \<and>
   vv (snd (run_loop (bounded 30) [] ([] @ 1 # [2]) demo)) ! 1 = [Complex 6 (- 2)] \<and>
   [Complex 6 (- 2)] \<noteq> [6 - 3 * \<i> / 2]"
proof -
  let ?d0 = "demo\<lparr>vv := [], tt := []\<rparr>"
  let ?s1 = "demo\<lparr>v := [6 - 3 * \<i> / 2], stepnum := 1, t := 1 / 4\<rparr>"
  have a: "int (length (v0 ?d0)) = N ?d0" and b: "ioutnum ?d0 = 0"
    and c: "room ([] @ 1 # [2]) demo" and d: "run_loop (bounded 30) [] [] demo = (Inr None, demo)"
    and e: "0 < iout demo" "1 mod iout demo = 0" and f: "int (length (v ?s1)) = N demo"
    by (simp_all add: demo_def room_def run_loop_def)
  have g: "map (c64 (bounded 30)) (v0 ?d0) = [2]"
    "map (c64 (bounded 30)) (v ?s1) = [Complex 6 (- 2)]" "ioutnum demo + 1 = 1"
    by (simp_all add: demo_def bounded_sel complex_eq_iff)
  have h: "[Complex 6 (- 2)] \<noteq> [6 - 3 * \<i> / 2]"
    by (simp add: complex_eq_iff)
  from samples_single_precision [OF demo_setup a b c d demo_attempt e f]
  show ?thesis
    unfolding g using demo_setup a b c d demo_attempt e h by simp
qed


subsection \<open>The correction of zeros\<close>

lemma of_length_Inr [simp]: "of_length n (Inr xs) \<longleftrightarrow> length xs = n"
  by (simp add: of_length_def)

lemma of_length_Inl [simp]: "of_length n (Inl e)"
  by (simp add: of_length_def)

lemma of_length_ufunc:
  assumes "of_length n a" "of_length n b"
  shows "of_length n (ufunc f a b)"
  using assms
  by (auto simp add: ufunc_def broadcast_def Let_def of_length_def split: sum.splits)

lemma of_length_ufunc_scalar:
  assumes "of_length n b"
  shows "of_length n (ufunc f (scalar c) b)"
  using assms
  by (auto simp add: ufunc_def broadcast_def scalar_def Let_def of_length_def split: sum.splits)

lemma of_length_ops:
  "of_length n a \<Longrightarrow> of_length n b \<Longrightarrow> of_length n (add ar a b)"
  "of_length n a \<Longrightarrow> of_length n b \<Longrightarrow> of_length n (sub ar a b)"
  "of_length n a \<Longrightarrow> of_length n b \<Longrightarrow> of_length n (mul ar a b)"
  "of_length n b \<Longrightarrow> of_length n (mul ar (scalar c) b)"
  "length xs = n \<Longrightarrow> of_length n (reals xs)"
  by (simp_all add: add_def sub_def mul_def of_length_ufunc of_length_ufunc_scalar reals_def)

lemma of_length_nonlin:
  assumes "length (g s) = n" "length w = n" "keeps_length n (fft ar)" "keeps_length n (ifft ar)"
  shows "of_length n (nonlin ar s w)"
proof -
  have "of_length n (map_sum id (fft ar) (square ar (Inr (np_real (ifft ar w)))))"
    using assms(2-)
    by (auto simp add: square_def np_real_def Let_def keeps_length_def of_length_def
        split: sum.splits)
  with assms(1) show ?thesis
    by (simp add: nonlin_def of_length_ops)
qed

lemma step_shaped:
  assumes sh: "shaped n s" and F: "keeps_length n (fft ar)" "keeps_length n (ifft ar)"
    and st: "step ar s = Inr s1"
  shows "shaped n s1"
proof -
  from sh have len: "length (v s) = n" "length (E s) = n" "length (E2 s) = n"
    "length (Q s) = n" "length (f1 s) = n" "length (f2 s) = n" "length (f3 s) = n"
    "length (g s) = n"
    by (simp_all add: shaped_def)
  note nl = of_length_nonlin [OF len(8) _ F]
  from st obtain Nv a Na b Nb c Nc w where
    1: "nonlin ar s (v s) = Inr Nv"
    and 2: "add ar (mul ar (Inr (E2 s)) (Inr (v s))) (mul ar (reals (Q s)) (Inr Nv)) = Inr a"
    and 3: "nonlin ar s a = Inr Na"
    and 4: "add ar (mul ar (Inr (E2 s)) (Inr (v s))) (mul ar (reals (Q s)) (Inr Na)) = Inr b"
    and 5: "nonlin ar s b = Inr Nb"
    and 6: "add ar (mul ar (Inr (E2 s)) (Inr a))
              (mul ar (reals (Q s)) (sub ar (mul ar (scalar 2) (Inr Nb)) (Inr Nv))) = Inr c"
    and 7: "nonlin ar s c = Inr Nc"
    and 8: "add ar
             (add ar
               (add ar (mul ar (Inr (E s)) (Inr (v s))) (mul ar (Inr Nv) (reals (f1 s))))
               (mul ar (mul ar (scalar 2) (add ar (Inr Na) (Inr Nb))) (reals (f2 s))))
             (mul ar (Inr Nc) (reals (f3 s))) = Inr w"
    and s1: "s1 = s\<lparr>v := w, stepnum := stepnum s + 1, t := t s + dt s\<rparr>"
    unfolding step_def ebind_Inr_iff by (elim exE conjE) auto
  from nl [of "v s"] len(1) 1 have lNv: "length Nv = n" by simp
  have "of_length n (add ar (mul ar (Inr (E2 s)) (Inr (v s))) (mul ar (reals (Q s)) (Inr Nv)))"
    using len lNv by (intro of_length_ops) simp_all
  with 2 have la: "length a = n" by simp
  from nl [of a] la 3 have lNa: "length Na = n" by simp
  have "of_length n (add ar (mul ar (Inr (E2 s)) (Inr (v s))) (mul ar (reals (Q s)) (Inr Na)))"
    using len lNa by (intro of_length_ops) simp_all
  with 4 have lb: "length b = n" by simp
  from nl [of b] lb 5 have lNb: "length Nb = n" by simp
  have "of_length n (add ar (mul ar (Inr (E2 s)) (Inr a))
              (mul ar (reals (Q s)) (sub ar (mul ar (scalar 2) (Inr Nb)) (Inr Nv))))"
    using len la lNb lNv by (intro of_length_ops) simp_all
  with 6 have lc: "length c = n" by simp
  from nl [of c] lc 7 have lNc: "length Nc = n" by simp
  have "of_length n (add ar
             (add ar
               (add ar (mul ar (Inr (E s)) (Inr (v s))) (mul ar (Inr Nv) (reals (f1 s))))
               (mul ar (mul ar (scalar 2) (add ar (Inr Na) (Inr Nb))) (reals (f2 s))))
             (mul ar (Inr Nc) (reals (f3 s))))"
    using len lNv lNa lNb lNc by (intro of_length_ops) simp_all
  with 8 have "length w = n" by simp
  with len show ?thesis
    by (simp add: s1 shaped_def)
qed

lemma iadd_zeros:
  assumes "\<forall>p. fadd ar p 0 = (p, False)"
  shows "iadd ar w (replicate (length w) 0) = (None, w)"
proof -
  have "map2 (fadd ar) w (replicate (length w) 0) = map (\<lambda>p. (p, False)) w"
    using assms by (induction w) simp_all
  then show ?thesis
    by (simp add: iadd_def Let_def list_ex_iff comp_def)
qed

lemma record_sample_shaped:
  assumes "record_sample ar n s = (res, s2)"
  shows "shaped m s2 = shaped m s"
  using assms
  by (auto simp add: record_sample_def Let_def shaped_def split: if_splits sum.splits)

lemma loops_agree:
  assumes z: "\<forall>p. fadd ar p 0 = (p, False)"
    and F: "keeps_length m (fft ar)" "keeps_length m (ifft ar)"
    and sh: "shaped m s"
  shows "loop_corr ar (replicate m 0) ns s = loop_plain ar ns s"
  using sh
proof (induction ns arbitrary: s)
  case Nil
  then show ?case by simp
next
  case (Cons n ns)
  show ?case
  proof (cases "step ar s")
    case (Inl e)
    then show ?thesis by simp
  next
    case (Inr s1)
    from step_shaped [OF Cons.prems F Inr] have sh1: "shaped m s1" .
    then have "length (v s1) = m" by (simp add: shaped_def)
    with iadd_zeros [OF z, of "v s1"] have ia: "iadd ar (v s1) (replicate m 0) = (None, v s1)"
      by simp
    obtain r2 s2 where rs: "record_sample ar n s1 = (r2, s2)"
      by (cases "record_sample ar n s1")
    from record_sample_shaped [OF rs] sh1 have "shaped m s2" by simp
    from Cons.IH [OF this] Inr ia rs show ?thesis
      by (cases r2) simp_all
  qed
qed

lemma setup_timeseries_shaped:
  assumes "setup_timeseries ar nout' s = (res, s2)"
  shows "shaped m s2 = shaped m s"
  using assms
  by (auto simp add: setup_timeseries_def Let_def shaped_def split: if_splits sum.splits option.splits)

text \<open>
  C8. On a solver whose arrays all have \<open>m\<close> entries, with a transform pair that
  keeps that length and an addition for which adding zero changes nothing and
  signals nothing, \<open>simulate\<close> with the correction of \<open>m\<close> zeros returns the same
  result and leaves the same object (the same \<open>v\<close>, \<open>vv\<close>, \<open>tt\<close> and everything
  else) as \<open>simulate\<close> without a correction, for all values of its other arguments.
  The sign of a zero, which an IEEE addition of \<open>+0\<close> can change, has no place among
  the complex numbers and is outside this statement.
\<close>

theorem zero_correction_is_no_correction:
  assumes sh: "shaped m s"
    and F: "keeps_length m (fft ar)" "keeps_length m (ifft ar)"
    and z: "\<forall>p. fadd ar p 0 = (p, False)"
  shows "simulate ar nsteps' iout' restart (replicate m 0) s = simulate ar nsteps' iout' restart [] s"
proof -
  have run: "run_loop ar (replicate m 0) ns s3 = run_loop ar [] ns s3" if "shaped m s3" for ns s3
    using loops_agree [OF z F that] by (simp add: run_loop_def)
  define s2 where "s2 = (case iout' of None \<Rightarrow> (case nsteps' of None \<Rightarrow> s | Some n \<Rightarrow> s\<lparr>nsteps := n\<rparr>)
      | Some i \<Rightarrow> (case nsteps' of None \<Rightarrow> s | Some n \<Rightarrow> s\<lparr>nsteps := n\<rparr>)\<lparr>iout := i\<rparr>)"
  have sh2: "shaped m s2"
    using sh by (simp add: s2_def shaped_def split: option.splits)
  define pre where "pre = (if restart then
                 (case int_quot (nsteps s2) (iout s2) of
                    Inl e \<Rightarrow> (Some e, s2)
                  | Inr q \<Rightarrow> setup_timeseries ar (Some (nout (s2\<lparr>nout := q\<rparr>))) (s2\<lparr>nout := q\<rparr>))
               else (None, s2))"
  have sh3: "shaped m (snd pre)"
  proof (cases "restart \<and> \<not> isl (int_quot (nsteps s2) (iout s2))")
    case True
    then obtain q where q: "int_quot (nsteps s2) (iout s2) = Inr q"
      by (cases "int_quot (nsteps s2) (iout s2)") auto
    have "shaped m (s2\<lparr>nout := q\<rparr>)"
      using sh2 by (simp add: shaped_def)
    with setup_timeseries_shaped [of ar "Some q" "s2\<lparr>nout := q\<rparr>"] True q show ?thesis
      by (cases "setup_timeseries ar (Some q) (s2\<lparr>nout := q\<rparr>)") (simp add: pre_def)
  next
    case False
    with sh2 show ?thesis
      by (cases "int_quot (nsteps s2) (iout s2)") (auto simp add: pre_def)
  qed
  have "simulate ar nsteps' iout' restart c s =
      (case pre of
           (Some e, s3) \<Rightarrow> (Inl e, s3)
         | (None, s3) \<Rightarrow>
             (case run_loop ar c [1..nsteps s3] s3 of
                (Inr None, s4) \<Rightarrow> (Inr None, fou2real ar s4)
              | (res, s4) \<Rightarrow> (res, s4)))" for c
    unfolding simulate_def Let_def pre_def s2_def
    by (simp split: option.splits)
  then show ?thesis
    using run [OF sh3] by (cases pre) (simp split: option.splits)
qed

theorem zero_correction_is_no_correction_witness:
  "shaped 1 demo \<and> keeps_length 1 (fft (exact dft idft)) \<and>
   keeps_length 1 (ifft (exact dft idft)) \<and> (\<forall>p. fadd (exact dft idft) p 0 = (p, False)) \<and>
   simulate (exact dft idft) None None False [0] demo =
     simulate (exact dft idft) None None False [] demo"
proof -
  have a: "shaped 1 demo"
    by (simp add: shaped_def demo_def)
  have b: "keeps_length 1 (fft (exact dft idft))" and c: "keeps_length 1 (ifft (exact dft idft))"
    by (simp_all add: exact_def keeps_length_dft keeps_length_idft)
  have d: "\<forall>p. fadd (exact dft idft) p 0 = (p, False)"
    by (simp add: exact_def)
  from zero_correction_is_no_correction [OF a b c d, of None None False] a b c d
  show ?thesis
    by simp
qed

end
